theory Spec2Isabelle
  imports Complex_Main "HOL-Library.AList"
begin

section \<open>Values and documents\<close>

text \<open>
  The backend (\<^verbatim>\<open>src/backend/app.py\<close>) reads BSON documents from two MongoDB
  collections and returns them as JSON. A document is a Python \<^verbatim>\<open>dict\<close> from strings
  to loosely typed values. Strings are lists of code points below 256; a double is either a
  finite rational or one of the three special values.
\<close>

datatype pyfloat = Finite rat | PosInf | NegInf | NaN

datatype val =
    VNone
  | VBool bool
  | VInt int
  | VFloat pyfloat
  | VStr string
  | VOid string
  | VList "val list"
  | VDict "(string \<times> val) list"

type_synonym doc = "(string \<times> val) list"

text \<open>The exceptions the handlers can meet.\<close>

datatype exn = KeyError | TypeError | ValueError | AttributeError | OverflowError | InvalidId

text \<open>
  What a route returns: \<open>Ok body\<close> is status 200 with the JSON body, \<open>NotFound\<close> is
  \<^verbatim>\<open>jsonify({'error': 'Specifications not found'}), 404\<close>, and \<open>Failed e\<close> is the
  outer \<^verbatim>\<open>except Exception as e\<close> branch, status 500 with a message built from \<open>e\<close>.
\<close>

datatype 'a response = Ok 'a | NotFound | Failed exn

text \<open>Dictionary operations: \<^verbatim>\<open>k in d\<close>, \<^verbatim>\<open>d.get(k)\<close> is \<open>map_of d k\<close>,
  \<^verbatim>\<open>d[k] = v\<close> is \<open>AList.update k v d\<close> and \<^verbatim>\<open>d.pop(k, None)\<close> is
  \<open>AList.delete k d\<close>.\<close>

definition has_key :: "string \<Rightarrow> doc \<Rightarrow> bool" where
  "has_key k d = (map_of d k \<noteq> None)"

text \<open>A loop or a comprehension whose body can raise: the first exception ends it.\<close>

fun for_each :: "('a \<Rightarrow> exn + 'b) \<Rightarrow> 'a list \<Rightarrow> exn + 'b list" where
  "for_each f [] = Inr []"
| "for_each f (x # xs) =
     (case f x of
        Inl e \<Rightarrow> Inl e
      | Inr y \<Rightarrow> (case for_each f xs of Inl e \<Rightarrow> Inl e | Inr ys \<Rightarrow> Inr (y # ys)))"

section \<open>Characters, digits and the three regular expressions\<close>

definition is_digit :: "char \<Rightarrow> bool" where
  "is_digit c = (c \<in> set ''0123456789'')"

definition digit_val :: "char \<Rightarrow> int" where
  "digit_val c = int (of_char c) - 48"

text \<open>The value of a run of decimal digits, read from the left.\<close>

definition int_of_digits :: "string \<Rightarrow> int" where
  "int_of_digits ds = fold (\<lambda>c n. 10 * n + digit_val c) ds 0"

text \<open>
  \<^verbatim>\<open>int(group)\<close> on a run of decimal digits. Since CPython 3.11 the conversion of a
  string refuses more than \<^verbatim>\<open>sys.int_info.default_max_str_digits\<close> digits, which
  is 4300, with a \<^verbatim>\<open>ValueError\<close>; leading zeros count.
\<close>

definition max_str_digits :: nat where
  "max_str_digits = 4300"

definition py_int :: "string \<Rightarrow> exn + int" where
  "py_int ds = (if max_str_digits < length ds then Inl ValueError else Inr (int_of_digits ds))"

text \<open>\<^verbatim>\<open>\s\<close> of a \<^verbatim>\<open>str\<close> pattern, on code points below 256.\<close>

definition is_space :: "char \<Rightarrow> bool" where
  "is_space c = ((of_char c :: nat) \<in> {9, 10, 11, 12, 13, 28, 29, 30, 31, 32, 133, 160})"

text \<open>Lower-casing of an ASCII letter: what \<^verbatim>\<open>re.IGNORECASE\<close> compares for the
  literal letters of the two patterns.\<close>

definition ascii_lower :: "char \<Rightarrow> char" where
  "ascii_lower c =
     (let n = (of_char c :: nat) in if 65 \<le> n \<and> n \<le> 90 then char_of (n + 32) else c)"

text \<open>\<open>lit_ci p s\<close>: the literal \<open>p\<close> (given in lower case) matches a prefix of \<open>s\<close>
  whatever the casing; the rest of \<open>s\<close> is returned.\<close>

fun lit_ci :: "string \<Rightarrow> string \<Rightarrow> string option" where
  "lit_ci [] s = Some s"
| "lit_ci (p # ps) [] = None"
| "lit_ci (p # ps) (c # cs) = (if ascii_lower c = p then lit_ci ps cs else None)"

text \<open>
  \<^verbatim>\<open>re.search(pattern, ai_perf, re.IGNORECASE)\<close>: the match at the leftmost start
  position that has one. \<open>f\<close> is the match of the pattern at the start of a string and
  gives \<^verbatim>\<open>group(1)\<close>.
\<close>

fun py_search :: "(string \<Rightarrow> string option) \<Rightarrow> string \<Rightarrow> string option" where
  "py_search f [] = f []"
| "py_search f (c # cs) = (case f (c # cs) of Some g \<Rightarrow> Some g | None \<Rightarrow> py_search f cs)"

text \<open>
  The pattern \<^verbatim>\<open>r'Up to (\d+)(?:\s*TOPS)?'\<close> at one start position. The match needs the
  literal and one digit; the group is greedy and the optional tail never makes it give a
  digit back, so the group is the whole run of digits.
\<close>

definition match_up_to :: "string \<Rightarrow> string option" where
  "match_up_to s =
     (case lit_ci ''up to '' s of
        None \<Rightarrow> None
      | Some r \<Rightarrow> (case takeWhile is_digit r of [] \<Rightarrow> None | d # ds \<Rightarrow> Some (d # ds)))"

definition search_up_to :: "string \<Rightarrow> string option" where
  "search_up_to s = py_search match_up_to s"

text \<open>
  The pattern \<^verbatim>\<open>r'(\d+)\s*TOPS'\<close> at one start position. Giving back a digit or a space
  cannot help: the next pattern item would then face that digit or space.
\<close>

definition match_tops :: "string \<Rightarrow> string option" where
  "match_tops s =
     (case takeWhile is_digit s of
        [] \<Rightarrow> None
      | d # ds \<Rightarrow>
          (case lit_ci ''tops'' (dropWhile is_space (dropWhile is_digit s)) of
             None \<Rightarrow> None
           | Some r \<Rightarrow> Some (d # ds)))"

definition search_tops :: "string \<Rightarrow> string option" where
  "search_tops s = py_search match_tops s"

text \<open>\<^verbatim>\<open>re.findall(r'\d+', ai_perf)\<close>: the maximal runs of digits, left to right.\<close>

function findall_digits :: "string \<Rightarrow> string list" where
  "findall_digits [] = []"
| "findall_digits (c # cs) =
     (if is_digit c
      then (c # takeWhile is_digit cs) # findall_digits (dropWhile is_digit cs)
      else findall_digits cs)"
  by pat_completeness auto
termination
  by (relation "measure length") (auto simp: length_dropWhile_le less_Suc_eq_le)

text \<open>\<^verbatim>\<open>max(...)\<close> on a list of integers that is not empty.\<close>

fun max_list :: "int list \<Rightarrow> int" where
  "max_list [] = 0"
| "max_list (x # xs) = fold max xs x"

section \<open>Performance extraction\<close>

text \<open>
  Lines 232 to 271 of \<^verbatim>\<open>get_mongodb_devices\<close>. The three pattern branches end in
  \<^verbatim>\<open>continue\<close>, which leaves the loop body; the other branches fall through to the
  lines that add \<^verbatim>\<open>type\<close>, \<^verbatim>\<open>model\<close>, \<^verbatim>\<open>name\<close> and \<^verbatim>\<open>lastSeen\<close>.
  The conversions of the string branch stand outside any \<^verbatim>\<open>try\<close>, so their
  \<^verbatim>\<open>ValueError\<close> leaves the extraction; the \<^verbatim>\<open>except (ValueError, TypeError)\<close>
  of the other branch does not catch the \<^verbatim>\<open>OverflowError\<close> of an infinite double.
\<close>

datatype flow = Continue | Fallthrough

text \<open>\<^verbatim>\<open>int(x)\<close> of a finite double truncates towards zero.\<close>

definition py_trunc :: "rat \<Rightarrow> int" where
  "py_trunc q = (if 0 \<le> q then \<lfloor>q\<rfloor> else \<lceil>q\<rceil>)"

fun extract_performance :: "val \<Rightarrow> exn + int \<times> flow" where
  "extract_performance (VStr s) =
     (case search_up_to s of
        Some g \<Rightarrow> (case py_int g of Inl e \<Rightarrow> Inl e | Inr n \<Rightarrow> Inr (n, Continue))
      | None \<Rightarrow>
         (case search_tops s of
            Some g \<Rightarrow> (case py_int g of Inl e \<Rightarrow> Inl e | Inr n \<Rightarrow> Inr (n, Continue))
          | None \<Rightarrow>
             (case findall_digits s of
                [] \<Rightarrow> Inr (0, Fallthrough)
              | r # rs \<Rightarrow>
                 (case for_each py_int (r # rs) of
                    Inl e \<Rightarrow> Inl e
                  | Inr ns \<Rightarrow> Inr (max_list ns, Continue)))))"
| "extract_performance (VInt i) = Inr (i, Fallthrough)"
| "extract_performance (VBool b) = Inr (if b then 1 else 0, Fallthrough)"
| "extract_performance (VFloat (Finite q)) = Inr (py_trunc q, Fallthrough)"
| "extract_performance (VFloat NaN) = Inr (0, Fallthrough)"
| "extract_performance (VFloat PosInf) = Inl OverflowError"
| "extract_performance (VFloat NegInf) = Inl OverflowError"
| "extract_performance VNone = Inr (0, Fallthrough)"
| "extract_performance (VOid h) = Inr (0, Fallthrough)"
| "extract_performance (VList xs) = Inr (0, Fallthrough)"
| "extract_performance (VDict m) = Inr (0, Fallthrough)"

section \<open>Lower-casing, substrings and object identifiers\<close>

text \<open>\<^verbatim>\<open>str.lower()\<close> on code points below 256: the ASCII capitals and the accented
  capitals from 192 to 222 (215 is the multiplication sign) move up by 32.\<close>

definition py_lower_char :: "char \<Rightarrow> char" where
  "py_lower_char c =
     (let n = (of_char c :: nat)
      in if (65 \<le> n \<and> n \<le> 90) \<or> (192 \<le> n \<and> n \<le> 222 \<and> n \<noteq> 215)
         then char_of (n + 32) else c)"

definition py_lower :: "string \<Rightarrow> string" where
  "py_lower s = map py_lower_char s"

text \<open>\<^verbatim>\<open>device['tag'].lower()\<close>: only a string has the method.\<close>

fun lower_method :: "val \<Rightarrow> exn + val" where
  "lower_method (VStr s) = Inr (VStr (py_lower s))"
| "lower_method v = Inl AttributeError"

text \<open>\<^verbatim>\<open>p in s\<close> on two strings.\<close>

fun contains :: "string \<Rightarrow> string \<Rightarrow> bool" where
  "contains p [] = (p = [])"
| "contains p (c # cs) = (take (length p) (c # cs) = p \<or> contains p cs)"

text \<open>
  \<^verbatim>\<open>ObjectId(device_id)\<close> of the \<^verbatim>\<open>bson\<close> library on a string: the string must have
  24 characters and \<^verbatim>\<open>bytes.fromhex\<close> must accept it (pairs of hexadecimal digits, ASCII
  white space allowed between pairs); anything else raises \<^verbatim>\<open>InvalidId\<close>. An identifier
  is kept as the lower-case hexadecimal string that \<^verbatim>\<open>str\<close> prints.
\<close>

definition is_hex :: "char \<Rightarrow> bool" where
  "is_hex c = (c \<in> set ''0123456789abcdefABCDEF'')"

definition is_ascii_space :: "char \<Rightarrow> bool" where
  "is_ascii_space c = ((of_char c :: nat) \<in> {9, 10, 11, 12, 13, 32})"

fun fromhex :: "string \<Rightarrow> string option" where
  "fromhex [] = Some []"
| "fromhex [c] = (if is_ascii_space c then Some [] else None)"
| "fromhex (c # d # ds) =
     (if is_ascii_space c then fromhex (d # ds)
      else if is_hex c \<and> is_hex d
           then map_option (\<lambda>r. ascii_lower c # ascii_lower d # r) (fromhex ds)
           else None)"

definition ObjectId :: "string \<Rightarrow> exn + string" where
  "ObjectId s =
     (if length s = 24
      then (case fromhex s of Some h \<Rightarrow> Inr h | None \<Rightarrow> Inl InvalidId)
      else Inl InvalidId)"

section \<open>The record store\<close>

text \<open>
  A stored document has the identifier MongoDB generated for it and its other fields.
  \<open>to_dict\<close> is the dictionary the driver hands to the handler.
\<close>

record mongo_doc =
  doc_id :: string
  doc_fields :: doc

record store =
  device_specs_collection :: "mongo_doc list"
  device_apps_collection :: "mongo_doc list"

definition to_dict :: "mongo_doc \<Rightarrow> doc" where
  "to_dict m = (''_id'', VOid (doc_id m)) # doc_fields m"

text \<open>A filter \<^verbatim>\<open>{k: q}\<close> selects a document whose field \<open>k\<close> equals \<open>q\<close>
  or is an array with the element \<open>q\<close>.\<close>

fun field_matches :: "val \<Rightarrow> val \<Rightarrow> bool" where
  "field_matches (VList xs) q = (VList xs = q \<or> q \<in> set xs)"
| "field_matches v q = (v = q)"

definition filter_matches :: "string \<Rightarrow> val \<Rightarrow> mongo_doc \<Rightarrow> bool" where
  "filter_matches k q m =
     (case map_of (to_dict m) k of Some v \<Rightarrow> field_matches v q | None \<Rightarrow> False)"

text \<open>\<^verbatim>\<open>collection.find_one({k: q})\<close> and \<^verbatim>\<open>collection.find_one({'_id': oid})\<close>.\<close>

definition find_one :: "mongo_doc list \<Rightarrow> string \<Rightarrow> val \<Rightarrow> doc option" where
  "find_one coll k q = map_option to_dict (List.find (filter_matches k q) coll)"

definition find_one_by_id :: "mongo_doc list \<Rightarrow> string \<Rightarrow> doc option" where
  "find_one_by_id coll oid = map_option to_dict (List.find (\<lambda>m. doc_id m = oid) coll)"

text \<open>The projection of \<^verbatim>\<open>get_mongodb_devices\<close>: only the listed fields come back.\<close>

definition projection :: "string list" where
  "projection =
     [''deviceName'', ''Category'', ''Processor'', ''AI Performance'', ''Memory'', ''Storage'',
      ''OS'', ''Wireless'', ''WLAN'', ''BT'', ''Ethernet'', ''Camera'', ''I/O'', ''Button'',
      ''Operating Tempeture'', ''Dimension'', ''Weight'', ''Power'', ''Super Mode'', ''tag'',
      ''description_summary'', ''_id'']"

definition project :: "doc \<Rightarrow> doc" where
  "project d = filter (\<lambda>kv. fst kv \<in> set projection) d"

text \<open>
  \<^verbatim>\<open>jsonify\<close> of Flask: the JSON encoder has no rule for an \<^verbatim>\<open>ObjectId\<close>, at
  any depth, and raises \<^verbatim>\<open>TypeError\<close>; every other value of a document is written
  (the special doubles as \<^verbatim>\<open>NaN\<close> and \<^verbatim>\<open>Infinity\<close>). A dictionary has one
  value for a key: the first entry of the association list.
\<close>

fun jsonable :: "val \<Rightarrow> bool" where
  "jsonable (VOid h) = False"
| "jsonable (VList xs) = list_all jsonable xs"
| "jsonable (VDict m) = list_all jsonable (map snd m)"
| "jsonable v = True"

definition jsonify :: "doc \<Rightarrow> exn + doc" where
  "jsonify d =
     (if list_all jsonable (map snd (AList.clearjunk d)) then Inr d else Inl TypeError)"

section \<open>Application names\<close>

text \<open>\<^verbatim>\<open>[app['name'] for app in apps['applications']]\<close>: iteration and subscript
  raise on the types that do not support them, and the comprehension stops there.\<close>

fun py_iter :: "val \<Rightarrow> exn + val list" where
  "py_iter (VList xs) = Inr xs"
| "py_iter (VDict m) = Inr (map (\<lambda>kv. VStr (fst kv)) m)"
| "py_iter (VStr s) = Inr (map (\<lambda>c. VStr [c]) s)"
| "py_iter v = Inl TypeError"

fun subscript_name :: "val \<Rightarrow> exn + val" where
  "subscript_name (VDict m) =
     (case map_of m ''name'' of Some v \<Rightarrow> Inr v | None \<Rightarrow> Inl KeyError)"
| "subscript_name v = Inl TypeError"

definition application_names :: "val \<Rightarrow> exn + val" where
  "application_names v =
     (case py_iter v of
        Inl e \<Rightarrow> Inl e
      | Inr xs \<Rightarrow> (case for_each subscript_name xs of Inl e \<Rightarrow> Inl e | Inr ns \<Rightarrow> Inr (VList ns)))"

text \<open>\<^verbatim>\<open>apps and 'applications' in apps\<close>, giving \<^verbatim>\<open>apps['applications']\<close>.\<close>

definition applications_of :: "doc option \<Rightarrow> val option" where
  "applications_of apps =
     (case apps of None \<Rightarrow> None | Some a \<Rightarrow> if a = [] then None else map_of a ''applications'')"

text \<open>Lines 213 to 220 and 437 to 442: the names of the linked applications, or the
  empty list.\<close>

definition linked_names :: "store \<Rightarrow> string \<Rightarrow> exn + val" where
  "linked_names st device_id =
     (case applications_of (find_one (device_apps_collection st) ''device_id'' (VStr device_id)) of
        Some v \<Rightarrow> application_names v
      | None \<Rightarrow> Inr (VList []))"

section \<open>The device list: \<^verbatim>\<open>get_mongodb_devices\<close>\<close>

text \<open>Lines 222 to 227.\<close>

definition status_of :: "val option \<Rightarrow> string" where
  "status_of super_mode = (if super_mode = Some (VStr ''Enable'') then ''enabled'' else ''disabled'')"

definition formatted_status_of :: "val option \<Rightarrow> string" where
  "formatted_status_of super_mode =
     (if super_mode = Some (VStr ''Enable'') then ''Super Mode: Enabled'' else ''Super Mode: Disabled'')"

text \<open>\<^verbatim>\<open>device.get(k, '')\<close>.\<close>

definition get_or_empty :: "doc \<Rightarrow> string \<Rightarrow> val" where
  "get_or_empty d k = (case map_of d k of Some v \<Rightarrow> v | None \<Rightarrow> VStr [])"

text \<open>
  One turn of the loop of lines 209 to 283, on the document \<open>m\<close>; \<open>seen\<close> is the
  time stamp that the clock and the random generator give for \<^verbatim>\<open>lastSeen\<close>.
\<close>

definition normalize_device :: "store \<Rightarrow> string \<Rightarrow> mongo_doc \<Rightarrow> exn + doc" where
  "normalize_device st seen m =
     (let device = project (to_dict m); device_id = doc_id m
      in case linked_names st device_id of
           Inl e \<Rightarrow> Inl e
         | Inr names \<Rightarrow>
            (let device = AList.update ''applications'' names device;
                 super_mode = map_of device ''Super Mode'';
                 device = AList.update ''status'' (VStr (status_of super_mode)) device;
                 device = AList.update ''formatted_status'' (VStr (formatted_status_of super_mode)) device;
                 ai_perf = get_or_empty device ''AI Performance''
             in case extract_performance ai_perf of
                  Inl e \<Rightarrow> Inl e
                | Inr (p, Continue) \<Rightarrow> Inr (AList.update ''performance'' (VInt p) device)
                | Inr (p, Fallthrough) \<Rightarrow>
                   (let device = AList.update ''performance'' (VInt p) device;
                        device = AList.update ''type'' (VStr ''ai_edge'') device;
                        device = AList.update ''model'' (get_or_empty device ''deviceName'') device;
                        device = AList.update ''name'' (get_or_empty device ''deviceName'') device;
                        device = AList.update ''lastSeen'' (VStr seen) device
                    in Inr device)))"

text \<open>The route: the loop over all specifications, in the store's order; an exception
  anywhere ends in the handler's \<^verbatim>\<open>except\<close> branch.\<close>

definition get_mongodb_devices :: "(nat \<Rightarrow> string) \<Rightarrow> store \<Rightarrow> doc list response" where
  "get_mongodb_devices seen st =
     (case for_each (\<lambda>im. normalize_device st (seen (fst im)) (snd im))
             (enumerate 0 (device_specs_collection st)) of
        Inl e \<Rightarrow> Failed e
      | Inr devices \<Rightarrow> Ok devices)"

section \<open>The tagged device list: \<^verbatim>\<open>get_devices_with_tags\<close>\<close>

text \<open>Lines 417 to 433.\<close>

definition normalize_tag :: "doc \<Rightarrow> exn + doc" where
  "normalize_tag device =
     (let (tag_value, device) =
            (case map_of device ''tag'' of
               Some v \<Rightarrow> (v, device)
             | None \<Rightarrow>
                (case map_of device ''Tag'' of
                   Some v \<Rightarrow> (v, AList.delete ''Tag'' device)
                 | None \<Rightarrow> (VNone, device)));
          device = AList.update ''tag'' tag_value device
      in if tag_value \<noteq> VNone
         then (case lower_method tag_value of
                 Inl e \<Rightarrow> Inl e
               | Inr t \<Rightarrow> Inr (AList.update ''tag'' t device))
         else Inr device)"

text \<open>One turn of the loop of lines 413 to 455.\<close>

definition with_tags_device :: "store \<Rightarrow> mongo_doc \<Rightarrow> exn + doc" where
  "with_tags_device st m =
     (let device = AList.update ''_id'' (VStr (doc_id m)) (to_dict m)
      in case normalize_tag device of
           Inl e \<Rightarrow> Inl e
         | Inr device \<Rightarrow>
            (case linked_names st (doc_id m) of
               Inl e \<Rightarrow> Inl e
             | Inr names \<Rightarrow>
                (let device = AList.update ''applications'' names device;
                     device =
                       (case map_of device ''deviceName'' of
                          Some n \<Rightarrow> AList.update ''formattedName'' n device
                        | None \<Rightarrow>
                           (let n = VStr (''Unknown Device ('' @ doc_id m @ '')'')
                            in AList.update ''formattedName'' n
                                 (AList.update ''deviceName'' n device)));
                     device =
                       (if has_key ''description'' device then device
                        else AList.update ''description'' VNone device)
                 in Inr device)))"

definition get_devices_with_tags :: "store \<Rightarrow> doc list response" where
  "get_devices_with_tags st =
     (case for_each (with_tags_device st) (device_specs_collection st) of
        Inl e \<Rightarrow> Failed e
      | Inr devices \<Rightarrow> Ok devices)"

section \<open>One device: \<^verbatim>\<open>get_device_specifications\<close>\<close>

text \<open>
  Lines 295 to 326. On the first path the \<^verbatim>\<open>TypeError\<close> of \<^verbatim>\<open>jsonify\<close> reaches
  the outer handler. The second path lies in the inner \<^verbatim>\<open>try\<close>, which swallows the
  \<^verbatim>\<open>InvalidId\<close> of \<^verbatim>\<open>ObjectId\<close> and the \<^verbatim>\<open>TypeError\<close> of its
  \<^verbatim>\<open>jsonify\<close> alike, so that both end in the 404 answer.
\<close>

definition get_device_specifications :: "store \<Rightarrow> string \<Rightarrow> doc response" where
  "get_device_specifications st device_id =
     (case find_one (device_specs_collection st) ''device_id'' (VStr device_id) of
        Some specs \<Rightarrow>
         (case jsonify (AList.delete ''_id'' specs) of Inl e \<Rightarrow> Failed e | Inr body \<Rightarrow> Ok body)
      | None \<Rightarrow>
         (case ObjectId device_id of
            Inl e \<Rightarrow> NotFound
          | Inr oid \<Rightarrow>
             (case find_one_by_id (device_specs_collection st) oid of
                None \<Rightarrow> NotFound
              | Some specs \<Rightarrow>
                 (let specs = AList.update ''_id'' (VStr oid) specs;
                      specs =
                        (if has_key ''description_summary'' specs then specs
                         else AList.update ''description_summary'' VNone specs)
                  in case jsonify specs of Inl e \<Rightarrow> NotFound | Inr body \<Rightarrow> Ok body))))"

section \<open>The applications of a device: \<^verbatim>\<open>get_device_applications\<close>\<close>

definition server_apps :: val where
  "server_apps =
     VList [VStr ''High-Performance Computing'', VStr ''Data Center Operations'',
            VStr ''Cloud Services'', VStr ''Enterprise AI Solutions'']"

definition edge_apps :: val where
  "edge_apps =
     VList [VStr ''Smart Surveillance'', VStr ''Industrial Quality Inspection'',
            VStr ''Edge Computing'']"

text \<open>\<^verbatim>\<open>'Server' in device.get('deviceName', '')\<close>.\<close>

fun server_in :: "val \<Rightarrow> exn + bool" where
  "server_in (VStr s) = Inr (contains ''Server'' s)"
| "server_in (VList xs) = Inr (VStr ''Server'' \<in> set xs)"
| "server_in (VDict m) = Inr (has_key ''Server'' m)"
| "server_in v = Inl TypeError"

text \<open>Lines 357 to 385: the second \<^verbatim>\<open>ObjectId(device_id)\<close> stands outside the inner
  \<^verbatim>\<open>try\<close>, so its \<^verbatim>\<open>InvalidId\<close> reaches the outer handler.\<close>

definition default_applications :: "store \<Rightarrow> string \<Rightarrow> val response" where
  "default_applications st device_id =
     (case ObjectId device_id of
        Inl e \<Rightarrow> Failed e
      | Inr oid \<Rightarrow>
         (case find_one_by_id (device_specs_collection st) oid of
            None \<Rightarrow> Ok (VList [])
          | Some device \<Rightarrow>
             (case server_in (get_or_empty device ''deviceName'') of
                Inl e \<Rightarrow> Failed e
              | Inr is_server \<Rightarrow> Ok (if is_server then server_apps else edge_apps))))"

text \<open>
  Lines 329 to 395; the answer is the value under \<^verbatim>\<open>applications\<close> of the body.
  The first \<^verbatim>\<open>jsonify\<close> stands outside the inner \<^verbatim>\<open>try\<close>. Inside the inner
  \<^verbatim>\<open>try\<close> a device that is found replaces \<^verbatim>\<open>device_id\<close> by
  \<^verbatim>\<open>str(device['_id'])\<close>, and the \<^verbatim>\<open>TypeError\<close> of the second
  \<^verbatim>\<open>jsonify\<close> is swallowed, which leads on to the default applications.
\<close>

definition get_device_applications :: "store \<Rightarrow> string \<Rightarrow> val response" where
  "get_device_applications st device_id =
     (case applications_of (find_one (device_apps_collection st) ''device_id'' (VStr device_id)) of
        Some v \<Rightarrow> (case jsonify [(''applications'', v)] of Inl e \<Rightarrow> Failed e | Inr body \<Rightarrow> Ok v)
      | None \<Rightarrow>
         (case ObjectId device_id of
            Inl e \<Rightarrow> default_applications st device_id
          | Inr oid \<Rightarrow>
             (case find_one_by_id (device_specs_collection st) oid of
                None \<Rightarrow> default_applications st device_id
              | Some device \<Rightarrow>
                 (case applications_of
                         (find_one (device_apps_collection st) ''device_id'' (VStr oid)) of
                    Some v \<Rightarrow>
                     (case jsonify [(''applications'', v)] of
                        Inl e \<Rightarrow> default_applications st oid
                      | Inr body \<Rightarrow> Ok v)
                  | None \<Rightarrow> default_applications st oid))))"

section \<open>Example stores\<close>

text \<open>The time stamp of the examples, and the store of the end-to-end scenario: one
  specification and the link document with its one application.\<close>

definition fixed_clock :: "nat \<Rightarrow> string" where
  "fixed_clock i = ''2025-01-01T00:00:00''"

definition ncox_id :: string where
  "ncox_id = ''67f4044ea91332165a91a8ab''"

definition ncox_spec :: mongo_doc where
  "ncox_spec =
     \<lparr>doc_id = ncox_id,
      doc_fields = [(''deviceName'', VStr ''NCOX''), (''AI Performance'', VStr ''Up to 16 TOPS''),
                    (''Super Mode'', VStr ''Enable''), (''tag'', VStr ''Best Seller'')]\<rparr>"

definition ncox_link :: mongo_doc where
  "ncox_link =
     \<lparr>doc_id = ''67f4044ea91332165a91a8ff'',
      doc_fields = [(''device_id'', VStr ncox_id),
                    (''applications'',
                     VList [VDict [(''name'', VStr ''Smart Surveillance''),
                                   (''type'', VStr ''surveillance'')]])]\<rparr>"

definition ncox_store :: store where
  "ncox_store = \<lparr>device_specs_collection = [ncox_spec], device_apps_collection = [ncox_link]\<rparr>"

definition ncox_view :: doc where
  "ncox_view =
     [(''_id'', VOid ncox_id), (''deviceName'', VStr ''NCOX''),
      (''AI Performance'', VStr ''Up to 16 TOPS''), (''Super Mode'', VStr ''Enable''),
      (''tag'', VStr ''Best Seller''), (''applications'', VList [VStr ''Smart Surveillance'']),
      (''status'', VStr ''enabled''), (''formatted_status'', VStr ''Super Mode: Enabled''),
      (''performance'', VInt 16)]"

text \<open>The same specification with a number in the performance field.\<close>

definition numeric_spec :: mongo_doc where
  "numeric_spec =
     \<lparr>doc_id = ncox_id,
      doc_fields = [(''deviceName'', VStr ''NCOX''), (''AI Performance'', VInt 16),
                    (''Super Mode'', VStr ''Enable''), (''tag'', VStr ''Best Seller'')]\<rparr>"

definition numeric_store :: store where
  "numeric_store = \<lparr>device_specs_collection = [numeric_spec], device_apps_collection = [ncox_link]\<rparr>"

definition numeric_view :: doc where
  "numeric_view =
     [(''_id'', VOid ncox_id), (''deviceName'', VStr ''NCOX''),
      (''AI Performance'', VInt 16), (''Super Mode'', VStr ''Enable''),
      (''tag'', VStr ''Best Seller''), (''applications'', VList [VStr ''Smart Surveillance'']),
      (''status'', VStr ''enabled''), (''formatted_status'', VStr ''Super Mode: Enabled''),
      (''performance'', VInt 16), (''type'', VStr ''ai_edge''), (''model'', VStr ''NCOX''),
      (''name'', VStr ''NCOX''), (''lastSeen'', VStr ''2025-01-01T00:00:00'')]"

text \<open>A specification whose performance field is a negative number.\<close>

definition negative_spec :: mongo_doc where
  "negative_spec =
     \<lparr>doc_id = ncox_id,
      doc_fields = [(''deviceName'', VStr ''NCOX''), (''AI Performance'', VInt (- 5))]\<rparr>"

definition negative_store :: store where
  "negative_store = \<lparr>device_specs_collection = [negative_spec], device_apps_collection = []\<rparr>"

definition negative_view :: doc where
  "negative_view =
     [(''_id'', VOid ncox_id), (''deviceName'', VStr ''NCOX''), (''AI Performance'', VInt (- 5)),
      (''applications'', VList []), (''status'', VStr ''disabled''),
      (''formatted_status'', VStr ''Super Mode: Disabled''), (''performance'', VInt (- 5)),
      (''type'', VStr ''ai_edge''), (''model'', VStr ''NCOX''), (''name'', VStr ''NCOX''),
      (''lastSeen'', VStr ''2025-01-01T00:00:00'')]"

text \<open>A store with a legacy specification that carries its own \<^verbatim>\<open>device_id\<close> field,
  and one with a specification that refers to another document by its object identifier.\<close>

definition legacy_spec :: mongo_doc where
  "legacy_spec =
     \<lparr>doc_id = ''67f4044ea91332165a91a8ac'',
      doc_fields = [(''device_id'', VStr ''device-ncon''), (''deviceName'', VStr ''NCON'')]\<rparr>"

definition two_store :: store where
  "two_store = \<lparr>device_specs_collection = [legacy_spec, ncox_spec], device_apps_collection = [ncox_link]\<rparr>"

definition legacy_tagged_view :: doc where
  "legacy_tagged_view =
     [(''_id'', VStr ''67f4044ea91332165a91a8ac''), (''device_id'', VStr ''device-ncon''),
      (''deviceName'', VStr ''NCON''), (''tag'', VNone), (''applications'', VList []),
      (''formattedName'', VStr ''NCON''), (''description'', VNone)]"

definition ref_id :: string where
  "ref_id = ''67f4044ea91332165a91a8ad''"

definition ref_spec :: mongo_doc where
  "ref_spec =
     \<lparr>doc_id = ref_id,
      doc_fields = [(''deviceName'', VStr ''NCOX''),
                    (''category_id'', VOid ''67f4044ea91332165a91a8ae'')]\<rparr>"

definition ref_legacy_spec :: mongo_doc where
  "ref_legacy_spec =
     \<lparr>doc_id = ''67f4044ea91332165a91a8af'',
      doc_fields = [(''device_id'', VStr ''device-ref''),
                    (''category_id'', VOid ''67f4044ea91332165a91a8ae'')]\<rparr>"

definition ref_store :: store where
  "ref_store = \<lparr>device_specs_collection = [ref_spec, ref_legacy_spec], device_apps_collection = []\<rparr>"

text \<open>Specifications with an empty tag, with the tag under the upper-case key and with a
  number as tag, and a link document whose application entry has no name.\<close>

definition empty_tag_spec :: mongo_doc where
  "empty_tag_spec =
     \<lparr>doc_id = ncox_id, doc_fields = [(''deviceName'', VStr ''NCOX''), (''tag'', VStr [])]\<rparr>"

definition empty_tag_store :: store where
  "empty_tag_store = \<lparr>device_specs_collection = [empty_tag_spec], device_apps_collection = []\<rparr>"

definition empty_tag_view :: doc where
  "empty_tag_view =
     [(''_id'', VStr ncox_id), (''deviceName'', VStr ''NCOX''), (''tag'', VStr []),
      (''applications'', VList []), (''formattedName'', VStr ''NCOX''), (''description'', VNone)]"

definition upper_tag_spec :: mongo_doc where
  "upper_tag_spec =
     \<lparr>doc_id = ncox_id, doc_fields = [(''deviceName'', VStr ''NCOX''), (''Tag'', VStr ''Best Seller'')]\<rparr>"

definition upper_tag_view :: doc where
  "upper_tag_view =
     [(''_id'', VStr ncox_id), (''deviceName'', VStr ''NCOX''), (''tag'', VStr ''best seller''),
      (''applications'', VList [VStr ''Smart Surveillance'']), (''formattedName'', VStr ''NCOX''),
      (''description'', VNone)]"

definition nameless_link :: mongo_doc where
  "nameless_link =
     \<lparr>doc_id = ''67f4044ea91332165a91a8ff'',
      doc_fields = [(''device_id'', VStr ncox_id),
                    (''applications'', VList [VDict [(''type'', VStr ''surveillance'')]])]\<rparr>"

definition nameless_store :: store where
  "nameless_store = \<lparr>device_specs_collection = [ncox_spec], device_apps_collection = [nameless_link]\<rparr>"

definition numeric_tag_spec :: mongo_doc where
  "numeric_tag_spec =
     \<lparr>doc_id = ncox_id, doc_fields = [(''deviceName'', VStr ''NCOX''), (''tag'', VInt 5)]\<rparr>"

definition numeric_tag_store :: store where
  "numeric_tag_store = \<lparr>device_specs_collection = [numeric_tag_spec], device_apps_collection = []\<rparr>"
section \<open>The notions of the properties\<close>

text \<open>
  The number a run of decimal digits writes: the digit at position \<open>i\<close> counts
  \<open>10 ^ (length ds - 1 - i)\<close> times.
\<close>

definition decimal_value :: "string \<Rightarrow> int" where
  "decimal_value ds =
     sum_list (map (\<lambda>i. (int (of_char (ds ! i)) - 48) * 10 ^ (length ds - Suc i)) [0..<length ds])"

text \<open>
  Where the patterns occur in a text \<open>s\<close>. After the part \<open>pre\<close> stand the words
  \<^verbatim>\<open>up to\<close> and a space, in any casing, and then the digits \<open>g\<close> up to the first
  character that is not a digit; or after \<open>pre\<close> stand the digits \<open>g\<close>, white space
  or none, and the unit \<^verbatim>\<open>tops\<close> in any casing. A run of the text is a longest
  stretch of digits.
\<close>

definition up_to_match :: "string \<Rightarrow> string \<Rightarrow> string \<Rightarrow> bool" where
  "up_to_match s pre g \<longleftrightarrow>
     (\<exists>u post. s = pre @ u @ g @ post \<and> map ascii_lower u = ''up to '' \<and> g \<noteq> []
        \<and> (\<forall>c\<in>set g. is_digit c) \<and> (post = [] \<or> \<not> is_digit (hd post)))"

definition tops_match :: "string \<Rightarrow> string \<Rightarrow> string \<Rightarrow> bool" where
  "tops_match s pre g \<longleftrightarrow>
     (\<exists>ws u post. s = pre @ g @ ws @ u @ post \<and> g \<noteq> [] \<and> (\<forall>c\<in>set g. is_digit c)
        \<and> (\<forall>c\<in>set ws. is_space c) \<and> map ascii_lower u = ''tops'')"

definition is_run :: "string \<Rightarrow> string \<Rightarrow> bool" where
  "is_run s g \<longleftrightarrow>
     (\<exists>pre post. s = pre @ g @ post \<and> g \<noteq> [] \<and> (\<forall>c\<in>set g. is_digit c)
        \<and> (pre = [] \<or> \<not> is_digit (last pre)) \<and> (post = [] \<or> \<not> is_digit (hd post)))"

text \<open>
  The conditions on the performance field that the properties speak of. The field is a
  number below zero whose integer part is not zero; the field holds nothing a number could
  be read from; the field is neither an infinite number nor a text with a run of more than
  4300 digits.
\<close>

fun is_negative_number :: "val \<Rightarrow> bool" where
  "is_negative_number (VInt i) = (i < 0)"
| "is_negative_number (VFloat (Finite q)) = (q \<le> - 1)"
| "is_negative_number v = False"

fun nothing_numeric :: "val \<Rightarrow> bool" where
  "nothing_numeric (VStr s) = (\<forall>c\<in>set s. \<not> is_digit c)"
| "nothing_numeric VNone = True"
| "nothing_numeric (VOid h) = True"
| "nothing_numeric (VList xs) = True"
| "nothing_numeric (VDict m) = True"
| "nothing_numeric (VFloat NaN) = True"
| "nothing_numeric v = False"

fun convertible :: "val \<Rightarrow> bool" where
  "convertible (VStr s) = (\<forall>g. is_run s g \<longrightarrow> length g \<le> max_str_digits)"
| "convertible (VFloat PosInf) = False"
| "convertible (VFloat NegInf) = False"
| "convertible v = True"

text \<open>The tag a document is read with: the lower-case key if the document has it, else the
  upper-case key.\<close>

definition source_tag :: "doc \<Rightarrow> val option" where
  "source_tag d = (case map_of d ''tag'' of Some v \<Rightarrow> Some v | None \<Rightarrow> map_of d ''Tag'')"

text \<open>The fields a list route can read: an \<^verbatim>\<open>applications\<close> value whose entries are
  mappings with a name (an empty mapping or string has nothing to iterate), and a tag that
  is missing, null or a string.\<close>

fun has_name :: "val \<Rightarrow> bool" where
  "has_name (VDict e) = has_key ''name'' e"
| "has_name v = False"

fun names_readable :: "val \<Rightarrow> bool" where
  "names_readable (VList xs) = (\<forall>x\<in>set xs. has_name x)"
| "names_readable (VDict m) = (m = [])"
| "names_readable (VStr s) = (s = [])"
| "names_readable v = False"

definition link_readable :: "store \<Rightarrow> string \<Rightarrow> bool" where
  "link_readable st device_id =
     (case applications_of (find_one (device_apps_collection st) ''device_id'' (VStr device_id)) of
        None \<Rightarrow> True
      | Some v \<Rightarrow> names_readable v)"

fun tag_readable :: "val option \<Rightarrow> bool" where
  "tag_readable None = True"
| "tag_readable (Some VNone) = True"
| "tag_readable (Some (VStr s)) = True"
| "tag_readable (Some v) = False"
text \<open>A device without linked applications: no link document matches its identifier, or
  the first that matches has no \<^verbatim>\<open>applications\<close> field.\<close>

definition unlinked :: "store \<Rightarrow> string \<Rightarrow> bool" where
  "unlinked st device_id =
     (case List.find (filter_matches ''device_id'' (VStr device_id)) (device_apps_collection st) of
        None \<Rightarrow> True
      | Some l \<Rightarrow> map_of (doc_fields l) ''applications'' = None)"

text \<open>The fields of a document other than \<^verbatim>\<open>_id\<close> can be written as JSON.\<close>

definition fields_jsonable :: "doc \<Rightarrow> bool" where
  "fields_jsonable d =
     list_all (\<lambda>kv. fst kv = ''_id'' \<or> jsonable (snd kv)) (AList.clearjunk d)"

section \<open>Properties of the regular expressions\<close>

lemma lit_ci_split: "lit_ci p s = Some r \<Longrightarrow> \<exists>u. s = u @ r \<and> map ascii_lower u = p"
  by (induction p s rule: lit_ci.induct) (force split: if_splits)+

lemma lit_ci_append: "map ascii_lower u = p \<Longrightarrow> lit_ci p (u @ r) = Some r"
  by (induction u arbitrary: p) auto

lemma ascii_lower_digit: "is_digit c \<Longrightarrow> ascii_lower c = c"
  by (auto simp: is_digit_def ascii_lower_def)

lemma space_not_digit: "is_space c \<Longrightarrow> \<not> is_digit c"
  by (auto simp: is_digit_def is_space_def)

lemma tops_head: "map ascii_lower u = ''tops'' \<Longrightarrow> \<exists>c cs. u = c # cs \<and> \<not> is_digit c \<and> \<not> is_space c"
  by (cases u) (auto simp: is_digit_def is_space_def ascii_lower_def split: if_splits)

lemma tops_tail_no_digit: "map ascii_lower t = '' tops'' \<Longrightarrow> \<not> is_digit (hd t)"
  by (cases t) (auto simp: is_digit_def ascii_lower_def split: if_splits)

lemma up_to_last:
  assumes "map ascii_lower u = ''up to ''" shows "u \<noteq> [] \<and> \<not> is_digit (last u)"
proof -
  from assms have n: "u \<noteq> []" by (cases u) simp_all
  have "ascii_lower (last u) = last (map ascii_lower u)" using n by (simp add: last_map)
  also have "\<dots> = CHR '' ''" unfolding assms by simp
  finally have l: "ascii_lower (last u) = CHR '' ''" .
  have "\<not> is_digit (last u)"
  proof
    assume d: "is_digit (last u)"
    then have "last u = CHR '' ''" using l by (simp add: ascii_lower_digit)
    with d show False by (simp add: is_digit_def)
  qed
  with n show ?thesis by (rule conjI)
qed

lemma takeWhile_run:
  "\<forall>c\<in>set g. P c \<Longrightarrow> post = [] \<or> \<not> P (hd post) \<Longrightarrow> takeWhile P (g @ post) = g"
  by (cases post) (auto simp: takeWhile_append2)

lemma dropWhile_run:
  "\<forall>c\<in>set g. P c \<Longrightarrow> post = [] \<or> \<not> P (hd post) \<Longrightarrow> dropWhile P (g @ post) = post"
  by (cases post) (auto simp: dropWhile_append2)

lemma dropWhile_head: "dropWhile P xs = [] \<or> \<not> P (hd (dropWhile P xs))"
proof (cases "dropWhile P xs = []")
  case True
  then show ?thesis by (rule disjI1)
next
  case False
  then have "\<not> P (hd (dropWhile P xs))" by (rule hd_dropWhile)
  then show ?thesis by (rule disjI2)
qed

lemma takeWhile_all_digits: "\<forall>x\<in>set (takeWhile is_digit cs). is_digit x"
  by (auto dest: set_takeWhileD)

lemma max_list_Max: "max_list (x # xs) = Max (set (x # xs))"
  unfolding max_list.simps by (rule Max.set_eq_fold [symmetric])

lemma findall_digits_Nil: "findall_digits s = [] \<longleftrightarrow> (\<forall>c\<in>set s. \<not> is_digit c)"
  by (induction s rule: findall_digits.induct) auto

subsection \<open>The value of a run of digits\<close>

lemma int_of_digits_snoc: "int_of_digits (ds @ [d]) = 10 * int_of_digits ds + digit_val d"
  by (simp add: int_of_digits_def)

lemma decimal_value_snoc: "decimal_value (ds @ [d]) = 10 * decimal_value ds + digit_val d"
proof -
  define F where "F = (\<lambda>i. (int (of_char ((ds @ [d]) ! i)) - 48) * 10 ^ (length (ds @ [d]) - Suc i))"
  define G where "G = (\<lambda>i. (int (of_char (ds ! i)) - 48) * 10 ^ (length ds - Suc i))"
  have fg: "map F [0..<length ds] = map (\<lambda>i. 10 * G i) [0..<length ds]"
  proof (rule map_cong [OF refl])
    fix i assume "i \<in> set [0..<length ds]"
    then have i: "i < length ds" by simp
    then have "length ds - i = Suc (length ds - Suc i)" by simp
    then show "F i = 10 * G i"
      unfolding F_def G_def using i by (simp add: nth_append)
  qed
  have last: "F (length ds) = digit_val d"
    unfolding F_def digit_val_def by simp
  have "decimal_value (ds @ [d]) = sum_list (map F [0..<length (ds @ [d])])"
    unfolding decimal_value_def F_def by (rule refl)
  also have "[0..<length (ds @ [d])] = [0..<length ds] @ [length ds]" by simp
  also have "sum_list (map F ([0..<length ds] @ [length ds]))
      = sum_list (map F [0..<length ds]) + F (length ds)" by simp
  also have "sum_list (map F [0..<length ds]) = 10 * sum_list (map G [0..<length ds])"
    unfolding fg by (rule sum_list_const_mult)
  also have "sum_list (map G [0..<length ds]) = decimal_value ds"
    unfolding decimal_value_def G_def by (rule refl)
  finally show ?thesis unfolding last .
qed

lemma int_of_digits_decimal: "int_of_digits ds = decimal_value ds"
proof (induction ds rule: rev_induct)
  case Nil
  show ?case by (simp add: int_of_digits_def decimal_value_def)
next
  case (snoc d ds)
  then show ?case by (simp only: int_of_digits_snoc decimal_value_snoc)
qed

lemma digit_val_nonneg: "is_digit c \<Longrightarrow> 0 \<le> digit_val c"
  by (auto simp: is_digit_def digit_val_def)

lemma int_of_digits_nonneg: "\<forall>c\<in>set ds. is_digit c \<Longrightarrow> 0 \<le> int_of_digits ds"
proof (induction ds rule: rev_induct)
  case Nil
  show ?case by (simp add: int_of_digits_def)
next
  case (snoc d ds)
  then have "0 \<le> int_of_digits ds" "0 \<le> digit_val d" by (simp_all add: digit_val_nonneg)
  then show ?case by (simp add: int_of_digits_snoc)
qed

lemma py_int_short: "length ds \<le> max_str_digits \<Longrightarrow> py_int ds = Inr (decimal_value ds)"
  by (simp add: py_int_def int_of_digits_decimal)

lemma py_int_long: "max_str_digits < length ds \<Longrightarrow> py_int ds = Inl ValueError"
  by (simp add: py_int_def)

lemma for_each_py_int:
  "\<forall>r\<in>set rs. length r \<le> max_str_digits \<Longrightarrow> for_each py_int rs = Inr (map decimal_value rs)"
  by (induction rs) (simp_all add: py_int_short)

subsection \<open>The leftmost match\<close>

lemma py_search_None_iff: "py_search f s = None \<longleftrightarrow> (\<forall>pre r. s = pre @ r \<longrightarrow> f r = None)"
proof (induction s)
  case Nil
  show ?case by simp
next
  case (Cons c cs)
  have "(\<forall>pre r. c # cs = pre @ r \<longrightarrow> f r = None)
      \<longleftrightarrow> f (c # cs) = None \<and> (\<forall>pre r. cs = pre @ r \<longrightarrow> f r = None)"
    by (auto simp: Cons_eq_append_conv)
  then show ?case using Cons by (auto split: option.splits)
qed

lemma py_search_sound: "py_search f s = Some g \<Longrightarrow> \<exists>pre r. s = pre @ r \<and> f r = Some g"
proof (induction s)
  case Nil
  then have "[] = [] @ [] \<and> f [] = Some g" by simp
  then show ?case by (intro exI)
next
  case (Cons c cs)
  show ?case
  proof (cases "f (c # cs)")
    case None
    with Cons.prems have "py_search f cs = Some g" by simp
    from Cons.IH [OF this] obtain pre r where "cs = pre @ r" "f r = Some g" by (elim exE conjE)
    then have "c # cs = (c # pre) @ r \<and> f r = Some g" by simp
    then show ?thesis by (intro exI)
  next
    case (Some h)
    with Cons.prems have "c # cs = [] @ (c # cs) \<and> f (c # cs) = Some g" by simp
    then show ?thesis by (intro exI)
  qed
qed

lemma py_search_leftmost:
  assumes "f r = Some g"
    and "\<forall>pre' r'. pre @ r = pre' @ r' \<and> length pre' < length pre \<longrightarrow> f r' = None"
  shows "py_search f (pre @ r) = Some g"
  using assms
proof (induction pre)
  case Nil
  then show ?case by (cases r) simp_all
next
  case (Cons c pre)
  have "(c # pre) @ r = [] @ (c # pre @ r) \<and> length ([]::string) < length (c # pre)" by simp
  with Cons.prems(2) have h: "f (c # pre @ r) = None" by blast
  have "\<forall>pre' r'. pre @ r = pre' @ r' \<and> length pre' < length pre \<longrightarrow> f r' = None"
  proof (intro allI impI)
    fix pre' r' assume "pre @ r = pre' @ r' \<and> length pre' < length pre"
    then have "(c # pre) @ r = (c # pre') @ r' \<and> length (c # pre') < length (c # pre)" by simp
    with Cons.prems(2) show "f r' = None" by blast
  qed
  from Cons.IH [OF Cons.prems(1) this] h show ?case by simp
qed

subsection \<open>The two patterns\<close>

lemma match_up_to_iff: "match_up_to r = Some g \<longleftrightarrow> up_to_match r [] g"
proof
  assume m: "match_up_to r = Some g"
  then have "\<exists>r'. lit_ci ''up to '' r = Some r' \<and> takeWhile is_digit r' = g \<and> g \<noteq> []"
    by (auto simp: match_up_to_def split: option.splits list.splits)
  then obtain r' where l: "lit_ci ''up to '' r = Some r'" and t: "takeWhile is_digit r' = g"
    and n: "g \<noteq> []"
    by (elim exE conjE)
  from lit_ci_split [OF l] obtain u where u: "r = u @ r'" "map ascii_lower u = ''up to ''"
    by (elim exE conjE)
  define post where "post = dropWhile is_digit r'"
  have "r' = g @ post" unfolding post_def t [symmetric] by simp
  with u(1) have e: "r = [] @ u @ g @ post" by simp
  have d: "\<forall>c\<in>set g. is_digit c" unfolding t [symmetric] by (rule takeWhile_all_digits)
  have p: "post = [] \<or> \<not> is_digit (hd post)" unfolding post_def by (rule dropWhile_head)
  from e u(2) n d p have "r = [] @ u @ g @ post \<and> map ascii_lower u = ''up to '' \<and> g \<noteq> []
        \<and> (\<forall>c\<in>set g. is_digit c) \<and> (post = [] \<or> \<not> is_digit (hd post))"
    by (intro conjI)
  then show "up_to_match r [] g" unfolding up_to_match_def by (intro exI)
next
  assume "up_to_match r [] g"
  then obtain u post where e: "r = [] @ u @ g @ post" and u: "map ascii_lower u = ''up to ''"
    and n: "g \<noteq> []" and d: "\<forall>c\<in>set g. is_digit c" and p: "post = [] \<or> \<not> is_digit (hd post)"
    unfolding up_to_match_def by (elim exE conjE)
  have t: "takeWhile is_digit (g @ post) = g" using d p by (rule takeWhile_run)
  have l: "lit_ci ''up to '' (u @ g @ post) = Some (g @ post)" using u by (rule lit_ci_append)
  from e have r: "r = u @ g @ post" by simp
  show "match_up_to r = Some g"
    unfolding match_up_to_def r l using t n by (cases g) simp_all
qed

lemma match_tops_iff: "match_tops r = Some g \<longleftrightarrow> tops_match r [] g"
proof
  assume m: "match_tops r = Some g"
  define t where "t = dropWhile is_space (dropWhile is_digit r)"
  from m have "\<exists>r'. takeWhile is_digit r = g \<and> g \<noteq> [] \<and> lit_ci ''tops'' t = Some r'"
    by (auto simp: match_tops_def t_def split: option.splits list.splits)
  then obtain r' where g: "takeWhile is_digit r = g" and n: "g \<noteq> []"
    and l: "lit_ci ''tops'' t = Some r'"
    by (elim exE conjE)
  from lit_ci_split [OF l] obtain u where u: "t = u @ r'" "map ascii_lower u = ''tops''"
    by (elim exE conjE)
  define ws where "ws = takeWhile is_space (dropWhile is_digit r)"
  have "dropWhile is_digit r = ws @ t" unfolding ws_def t_def by simp
  moreover have "r = g @ dropWhile is_digit r" unfolding g [symmetric] by simp
  ultimately have e: "r = [] @ g @ ws @ u @ r'" using u(1) by simp
  have d: "\<forall>c\<in>set g. is_digit c" unfolding g [symmetric] by (rule takeWhile_all_digits)
  have w: "\<forall>c\<in>set ws. is_space c" unfolding ws_def by (auto dest: set_takeWhileD)
  from e n d w u(2) have "r = [] @ g @ ws @ u @ r' \<and> g \<noteq> [] \<and> (\<forall>c\<in>set g. is_digit c)
        \<and> (\<forall>c\<in>set ws. is_space c) \<and> map ascii_lower u = ''tops''"
    by (intro conjI)
  then show "tops_match r [] g" unfolding tops_match_def by (intro exI)
next
  assume "tops_match r [] g"
  then obtain ws u post where e: "r = [] @ g @ ws @ u @ post" and n: "g \<noteq> []"
    and d: "\<forall>c\<in>set g. is_digit c" and w: "\<forall>c\<in>set ws. is_space c"
    and u: "map ascii_lower u = ''tops''"
    unfolding tops_match_def by (elim exE conjE)
  from tops_head [OF u] obtain c cs where c: "u = c # cs" "\<not> is_digit c" "\<not> is_space c"
    by (elim exE conjE)
  have h: "ws @ u @ post = [] \<or> \<not> is_digit (hd (ws @ u @ post))"
    using c w by (cases ws) (simp_all add: space_not_digit)
  have k: "u @ post = [] \<or> \<not> is_space (hd (u @ post))"
    using c by simp
  from e have r: "r = g @ ws @ u @ post" by simp
  have t1: "takeWhile is_digit r = g" unfolding r using d h by (rule takeWhile_run)
  have d1: "dropWhile is_digit r = ws @ u @ post" unfolding r using d h by (rule dropWhile_run)
  have d2: "dropWhile is_space (ws @ u @ post) = u @ post" using w k by (rule dropWhile_run)
  have l: "lit_ci ''tops'' (u @ post) = Some post" using u by (rule lit_ci_append)
  show "match_tops r = Some g"
    unfolding match_tops_def t1 d1 d2 l using n by (cases g) simp_all
qed

lemma up_to_match_shift: "up_to_match (pre @ r) pre g \<longleftrightarrow> up_to_match r [] g"
  by (simp add: up_to_match_def)

lemma tops_match_shift: "tops_match (pre @ r) pre g \<longleftrightarrow> tops_match r [] g"
  by (simp add: tops_match_def)

lemma up_to_match_suffix:
  assumes "up_to_match s pre g" shows "\<exists>r. s = pre @ r \<and> match_up_to r = Some g"
proof -
  from assms obtain u post where e: "s = pre @ u @ g @ post"
    unfolding up_to_match_def by (elim exE conjE)
  from assms have "up_to_match (u @ g @ post) [] g"
    unfolding e by (simp only: up_to_match_shift)
  then have "match_up_to (u @ g @ post) = Some g" by (simp only: match_up_to_iff)
  with e have "s = pre @ (u @ g @ post) \<and> match_up_to (u @ g @ post) = Some g" by simp
  then show ?thesis by (intro exI)
qed

lemma tops_match_suffix:
  assumes "tops_match s pre g" shows "\<exists>r. s = pre @ r \<and> match_tops r = Some g"
proof -
  from assms obtain ws u post where e: "s = pre @ g @ ws @ u @ post"
    unfolding tops_match_def by (elim exE conjE)
  from assms have "tops_match (g @ ws @ u @ post) [] g"
    unfolding e by (simp only: tops_match_shift)
  then have "match_tops (g @ ws @ u @ post) = Some g" by (simp only: match_tops_iff)
  with e have "s = pre @ (g @ ws @ u @ post) \<and> match_tops (g @ ws @ u @ post) = Some g" by simp
  then show ?thesis by (intro exI)
qed

lemma search_up_to_leftmost:
  assumes "up_to_match s pre g"
    and "\<forall>pre' g'. up_to_match s pre' g' \<longrightarrow> length pre \<le> length pre'"
  shows "search_up_to s = Some g"
proof -
  from up_to_match_suffix [OF assms(1)] obtain r where r: "s = pre @ r" "match_up_to r = Some g"
    by (elim exE conjE)
  have "\<forall>pre' r'. pre @ r = pre' @ r' \<and> length pre' < length pre \<longrightarrow> match_up_to r' = None"
  proof (intro allI impI)
    fix pre' r' assume a: "pre @ r = pre' @ r' \<and> length pre' < length pre"
    show "match_up_to r' = None"
    proof (cases "match_up_to r'")
      case None
      then show ?thesis .
    next
      case (Some g')
      then have "up_to_match r' [] g'" by (simp only: match_up_to_iff)
      then have "up_to_match (pre' @ r') pre' g'" by (simp only: up_to_match_shift)
      then have "up_to_match s pre' g'" using a r(1) by simp
      with assms(2) have "length pre \<le> length pre'" by blast
      with a show ?thesis by simp
    qed
  qed
  from py_search_leftmost [OF r(2) this] show ?thesis by (simp add: search_up_to_def r(1))
qed

lemma search_tops_leftmost:
  assumes "tops_match s pre g"
    and "\<forall>pre' g'. tops_match s pre' g' \<longrightarrow> length pre \<le> length pre'"
  shows "search_tops s = Some g"
proof -
  from tops_match_suffix [OF assms(1)] obtain r where r: "s = pre @ r" "match_tops r = Some g"
    by (elim exE conjE)
  have "\<forall>pre' r'. pre @ r = pre' @ r' \<and> length pre' < length pre \<longrightarrow> match_tops r' = None"
  proof (intro allI impI)
    fix pre' r' assume a: "pre @ r = pre' @ r' \<and> length pre' < length pre"
    show "match_tops r' = None"
    proof (cases "match_tops r'")
      case None
      then show ?thesis .
    next
      case (Some g')
      then have "tops_match r' [] g'" by (simp only: match_tops_iff)
      then have "tops_match (pre' @ r') pre' g'" by (simp only: tops_match_shift)
      then have "tops_match s pre' g'" using a r(1) by simp
      with assms(2) have "length pre \<le> length pre'" by blast
      with a show ?thesis by simp
    qed
  qed
  from py_search_leftmost [OF r(2) this] show ?thesis by (simp add: search_tops_def r(1))
qed

lemma search_up_to_None:
  assumes "\<forall>pre g. \<not> up_to_match s pre g" shows "search_up_to s = None"
  unfolding search_up_to_def py_search_None_iff
proof (intro allI impI)
  fix pre r assume s: "s = pre @ r"
  show "match_up_to r = None"
  proof (cases "match_up_to r")
    case None
    then show ?thesis .
  next
    case (Some g)
    then have "up_to_match r [] g" by (simp only: match_up_to_iff)
    then have "up_to_match s pre g" unfolding s by (simp only: up_to_match_shift)
    with assms show ?thesis by blast
  qed
qed

lemma search_tops_None:
  assumes "\<forall>pre g. \<not> tops_match s pre g" shows "search_tops s = None"
  unfolding search_tops_def py_search_None_iff
proof (intro allI impI)
  fix pre r assume s: "s = pre @ r"
  show "match_tops r = None"
  proof (cases "match_tops r")
    case None
    then show ?thesis .
  next
    case (Some g)
    then have "tops_match r [] g" by (simp only: match_tops_iff)
    then have "tops_match s pre g" unfolding s by (simp only: tops_match_shift)
    with assms show ?thesis by blast
  qed
qed

lemma search_up_to_Some:
  assumes "search_up_to s = Some g" shows "\<exists>pre. up_to_match s pre g"
proof -
  from py_search_sound [OF assms [unfolded search_up_to_def]]
  obtain pre r where r: "s = pre @ r" "match_up_to r = Some g" by (elim exE conjE)
  from r(2) have "up_to_match r [] g" by (simp only: match_up_to_iff)
  then have "up_to_match s pre g" unfolding r(1) by (simp only: up_to_match_shift)
  then show ?thesis by (rule exI)
qed

lemma search_tops_Some:
  assumes "search_tops s = Some g" shows "\<exists>pre. tops_match s pre g"
proof -
  from py_search_sound [OF assms [unfolded search_tops_def]]
  obtain pre r where r: "s = pre @ r" "match_tops r = Some g" by (elim exE conjE)
  from r(2) have "tops_match r [] g" by (simp only: match_tops_iff)
  then have "tops_match s pre g" unfolding r(1) by (simp only: tops_match_shift)
  then show ?thesis by (rule exI)
qed

lemma up_to_match_digits:
  "up_to_match s pre g \<Longrightarrow> g \<noteq> [] \<and> (\<forall>c\<in>set g. is_digit c) \<and> (\<exists>a b. s = a @ g @ b)"
proof -
  assume "up_to_match s pre g"
  then obtain u post where e: "s = pre @ u @ g @ post" and n: "g \<noteq> []"
    and d: "\<forall>c\<in>set g. is_digit c"
    unfolding up_to_match_def by (elim exE conjE)
  from e have "s = (pre @ u) @ g @ post" by simp
  then have "\<exists>a b. s = a @ g @ b" by (intro exI)
  with n d show ?thesis by (intro conjI)
qed

lemma tops_match_digits:
  "tops_match s pre g \<Longrightarrow> g \<noteq> [] \<and> (\<forall>c\<in>set g. is_digit c) \<and> (\<exists>a b. s = a @ g @ b)"
proof -
  assume "tops_match s pre g"
  then obtain ws u post where e: "s = pre @ g @ ws @ u @ post" and n: "g \<noteq> []"
    and d: "\<forall>c\<in>set g. is_digit c"
    unfolding tops_match_def by (elim exE conjE)
  from e have "s = pre @ g @ (ws @ u @ post)" by simp
  then have "\<exists>a b. s = a @ g @ b" by (intro exI)
  with n d show ?thesis by (intro conjI)
qed

lemma block_has_digit:
  assumes "g \<noteq> []" "\<forall>c\<in>set g. is_digit c" "s = a @ g @ b" shows "\<exists>c\<in>set s. is_digit c"
proof -
  from assms(1) obtain c where "c \<in> set g" by (cases g) auto
  with assms(2,3) have "c \<in> set s" "is_digit c" by simp_all
  then show ?thesis by (rule bexI [rotated])
qed

lemma no_digit_no_up_to: "\<forall>c\<in>set s. \<not> is_digit c \<Longrightarrow> \<not> up_to_match s pre g"
proof
  assume nd: "\<forall>c\<in>set s. \<not> is_digit c" and "up_to_match s pre g"
  from up_to_match_digits [OF this(2)] obtain a b where "g \<noteq> []" "\<forall>c\<in>set g. is_digit c" "s = a @ g @ b"
    by (elim exE conjE)
  from block_has_digit [OF this] nd show False by blast
qed

lemma no_digit_no_tops: "\<forall>c\<in>set s. \<not> is_digit c \<Longrightarrow> \<not> tops_match s pre g"
proof
  assume nd: "\<forall>c\<in>set s. \<not> is_digit c" and "tops_match s pre g"
  from tops_match_digits [OF this(2)] obtain a b where "g \<noteq> []" "\<forall>c\<in>set g. is_digit c" "s = a @ g @ b"
    by (elim exE conjE)
  from block_has_digit [OF this] nd show False by blast
qed

subsection \<open>Substrings\<close>

lemma contains_iff: "contains p s \<longleftrightarrow> (\<exists>pre post. s = pre @ p @ post)"
proof (induction s)
  case Nil
  then show ?case by auto
next
  case (Cons c cs)
  show ?case
  proof
    assume "contains p (c # cs)"
    then consider "take (length p) (c # cs) = p" | "contains p cs" by auto
    then show "\<exists>pre post. c # cs = pre @ p @ post"
    proof cases
      case 1
      then have "c # cs = [] @ p @ drop (length p) (c # cs)"
        by (metis append_Nil append_take_drop_id)
      then show ?thesis by (intro exI)
    next
      case 2
      with Cons have "\<exists>pre post. cs = pre @ p @ post" by simp
      then obtain pre post where "cs = pre @ p @ post" by (elim exE)
      then have "c # cs = (c # pre) @ p @ post" by simp
      then show ?thesis by (intro exI)
    qed
  next
    assume "\<exists>pre post. c # cs = pre @ p @ post"
    then obtain pre post where e: "c # cs = pre @ p @ post" by (elim exE)
    show "contains p (c # cs)"
    proof (cases pre)
      case Nil
      with e have "take (length p) (c # cs) = p" by simp
      then show ?thesis by simp
    next
      case (Cons a pre')
      with e have "cs = pre' @ p @ post" by simp
      then have "\<exists>pre post. cs = pre @ p @ post" by (intro exI)
      then have "contains p cs" using Cons.IH by simp
      then show ?thesis by simp
    qed
  qed
qed

lemma up_to_match_contains:
  assumes "up_to_match s pre g" shows "contains ''up to'' (map ascii_lower s)"
proof -
  from assms obtain u post where e: "s = pre @ u @ g @ post" and u: "map ascii_lower u = ''up to ''"
    unfolding up_to_match_def by (elim exE conjE)
  have "map ascii_lower s = map ascii_lower pre @ map ascii_lower u @ map ascii_lower (g @ post)"
    unfolding e by simp
  then have "map ascii_lower s = map ascii_lower pre @ ''up to'' @ ('' '' @ map ascii_lower (g @ post))"
    unfolding u by simp
  then show ?thesis unfolding contains_iff by (intro exI)
qed

lemma tops_match_contains:
  assumes "tops_match s pre g" shows "contains ''tops'' (map ascii_lower s)"
proof -
  from assms obtain ws u post where e: "s = pre @ g @ ws @ u @ post" and u: "map ascii_lower u = ''tops''"
    unfolding tops_match_def by (elim exE conjE)
  have "map ascii_lower s = map ascii_lower (pre @ g @ ws) @ map ascii_lower u @ map ascii_lower post"
    unfolding e by simp
  then have "map ascii_lower s = map ascii_lower (pre @ g @ ws) @ ''tops'' @ map ascii_lower post"
    unfolding u .
  then show ?thesis unfolding contains_iff by (intro exI)
qed

lemma up_to_match_at:
  assumes "up_to_match s pre g"
  shows "take 6 (drop (length pre) (map ascii_lower s)) = ''up to ''"
proof -
  from assms obtain u post where e: "s = pre @ u @ g @ post" and u: "map ascii_lower u = ''up to ''"
    unfolding up_to_match_def by (elim exE conjE)
  have "length (map ascii_lower u) = 6" unfolding u by simp
  then have l: "length u = 6" by simp
  have "drop (length pre) (map ascii_lower s) = map ascii_lower u @ map ascii_lower (g @ post)"
    unfolding e by (simp add: drop_map)
  then have "take 6 (drop (length pre) (map ascii_lower s)) = map ascii_lower u"
    using l by simp
  then show ?thesis unfolding u .
qed

subsection \<open>The runs of digits\<close>

lemma is_run_Nil: "\<not> is_run [] g"
  by (simp add: is_run_def)

lemma is_run_skip:
  assumes "\<not> is_digit c" shows "is_run (c # cs) g \<longleftrightarrow> is_run cs g"
proof
  assume "is_run (c # cs) g"
  then obtain pre post where e: "c # cs = pre @ g @ post" and n: "g \<noteq> []"
    and d: "\<forall>x\<in>set g. is_digit x" and p: "pre = [] \<or> \<not> is_digit (last pre)"
    and q: "post = [] \<or> \<not> is_digit (hd post)"
    unfolding is_run_def by (elim exE conjE)
  have "pre \<noteq> []"
  proof
    assume "pre = []"
    with e n have "c = hd g" "hd g \<in> set g" by (cases g; simp)+
    with d assms show False by simp
  qed
  then obtain pre' where pre: "pre = c # pre'" using e by (cases pre) simp_all
  with e have e': "cs = pre' @ g @ post" by simp
  have p': "pre' = [] \<or> \<not> is_digit (last pre')" using p pre by (cases "pre' = []") simp_all
  from e' n d p' q have "cs = pre' @ g @ post \<and> g \<noteq> [] \<and> (\<forall>x\<in>set g. is_digit x)
      \<and> (pre' = [] \<or> \<not> is_digit (last pre')) \<and> (post = [] \<or> \<not> is_digit (hd post))"
    by (intro conjI)
  then show "is_run cs g" unfolding is_run_def by (intro exI)
next
  assume "is_run cs g"
  then obtain pre post where e: "cs = pre @ g @ post" and n: "g \<noteq> []"
    and d: "\<forall>x\<in>set g. is_digit x" and p: "pre = [] \<or> \<not> is_digit (last pre)"
    and q: "post = [] \<or> \<not> is_digit (hd post)"
    unfolding is_run_def by (elim exE conjE)
  from e have e': "c # cs = (c # pre) @ g @ post" by simp
  have p': "c # pre = [] \<or> \<not> is_digit (last (c # pre))" using p assms by (cases "pre = []") simp_all
  from e' n d p' q have "c # cs = (c # pre) @ g @ post \<and> g \<noteq> [] \<and> (\<forall>x\<in>set g. is_digit x)
      \<and> (c # pre = [] \<or> \<not> is_digit (last (c # pre))) \<and> (post = [] \<or> \<not> is_digit (hd post))"
    by (intro conjI)
  then show "is_run (c # cs) g" unfolding is_run_def by (intro exI)
qed

lemma is_run_first:
  assumes c: "is_digit c"
  shows "is_run (c # cs) g \<longleftrightarrow> g = c # takeWhile is_digit cs \<or> is_run (dropWhile is_digit cs) g"
proof
  assume "is_run (c # cs) g"
  then obtain pre post where e: "c # cs = pre @ g @ post" and n: "g \<noteq> []"
    and d: "\<forall>x\<in>set g. is_digit x" and p: "pre = [] \<or> \<not> is_digit (last pre)"
    and q: "post = [] \<or> \<not> is_digit (hd post)"
    unfolding is_run_def by (elim exE conjE)
  show "g = c # takeWhile is_digit cs \<or> is_run (dropWhile is_digit cs) g"
  proof (cases "pre = []")
    case True
    with e have "takeWhile is_digit (c # cs) = takeWhile is_digit (g @ post)" by simp
    also have "\<dots> = g" using d q by (rule takeWhile_run)
    finally have "g = c # takeWhile is_digit cs" using c by simp
    then show ?thesis by (rule disjI1)
  next
    case False
    with p have l: "last pre \<in> set pre" "\<not> is_digit (last pre)" by simp_all
    define pre' where "pre' = dropWhile is_digit pre"
    have "dropWhile is_digit (c # cs) = dropWhile is_digit pre @ g @ post"
      unfolding e using l by (rule dropWhile_append1)
    then have e': "dropWhile is_digit cs = pre' @ g @ post" using c by (simp add: pre'_def)
    have ne: "pre' \<noteq> []" unfolding pre'_def using l by (auto simp: dropWhile_eq_Nil_conv)
    have "pre = takeWhile is_digit pre @ pre'" unfolding pre'_def by simp
    then have "last pre = last pre'" using ne by (metis last_appendR)
    with l(2) have p': "pre' = [] \<or> \<not> is_digit (last pre')" by simp
    from e' n d p' q have "dropWhile is_digit cs = pre' @ g @ post \<and> g \<noteq> [] \<and> (\<forall>x\<in>set g. is_digit x)
      \<and> (pre' = [] \<or> \<not> is_digit (last pre')) \<and> (post = [] \<or> \<not> is_digit (hd post))"
      by (intro conjI)
    then have "is_run (dropWhile is_digit cs) g" unfolding is_run_def by (intro exI)
    then show ?thesis by (rule disjI2)
  qed
next
  assume a: "g = c # takeWhile is_digit cs \<or> is_run (dropWhile is_digit cs) g"
  show "is_run (c # cs) g"
  proof (cases "g = c # takeWhile is_digit cs")
    case True
    have e: "c # cs = [] @ g @ dropWhile is_digit cs" unfolding True by simp
    have d: "\<forall>x\<in>set g. is_digit x" unfolding True using c takeWhile_all_digits [of cs] by simp
    have q: "dropWhile is_digit cs = [] \<or> \<not> is_digit (hd (dropWhile is_digit cs))"
      by (rule dropWhile_head)
    have n: "g \<noteq> []" unfolding True by simp
    have p: "([]::string) = [] \<or> \<not> is_digit (last [])" by simp
    from e n d p q have "c # cs = [] @ g @ dropWhile is_digit cs \<and> g \<noteq> [] \<and> (\<forall>x\<in>set g. is_digit x)
      \<and> (([]::string) = [] \<or> \<not> is_digit (last [])) \<and>
        (dropWhile is_digit cs = [] \<or> \<not> is_digit (hd (dropWhile is_digit cs)))"
      by (intro conjI)
    then show ?thesis unfolding is_run_def by (intro exI)
  next
    case False
    with a have "is_run (dropWhile is_digit cs) g" by simp
    then obtain pre post where e: "dropWhile is_digit cs = pre @ g @ post" and n: "g \<noteq> []"
      and d: "\<forall>x\<in>set g. is_digit x" and p: "pre = [] \<or> \<not> is_digit (last pre)"
      and q: "post = [] \<or> \<not> is_digit (hd post)"
      unfolding is_run_def by (elim exE conjE)
    have ne: "pre \<noteq> []"
    proof
      assume "pre = []"
      with e n have h: "hd (dropWhile is_digit cs) = hd g" "hd g \<in> set g" "dropWhile is_digit cs \<noteq> []"
        by (cases g; simp)+
      from h(3) have "\<not> is_digit (hd (dropWhile is_digit cs))" by (rule hd_dropWhile)
      with h(1,2) d show False by simp
    qed
    have "c # cs = (c # takeWhile is_digit cs) @ dropWhile is_digit cs" by simp
    then have e': "c # cs = ((c # takeWhile is_digit cs) @ pre) @ g @ post" unfolding e by simp
    have "last ((c # takeWhile is_digit cs) @ pre) = last pre" using ne by simp
    with p ne have p': "(c # takeWhile is_digit cs) @ pre = [] \<or> \<not> is_digit (last ((c # takeWhile is_digit cs) @ pre))"
      by simp
    from e' n d p' q have "c # cs = ((c # takeWhile is_digit cs) @ pre) @ g @ post \<and> g \<noteq> []
      \<and> (\<forall>x\<in>set g. is_digit x)
      \<and> ((c # takeWhile is_digit cs) @ pre = [] \<or> \<not> is_digit (last ((c # takeWhile is_digit cs) @ pre)))
      \<and> (post = [] \<or> \<not> is_digit (hd post))"
      by (intro conjI)
    then show ?thesis unfolding is_run_def by (intro exI)
  qed
qed

lemma findall_digits_is_run: "g \<in> set (findall_digits s) \<longleftrightarrow> is_run s g"
proof (induction s rule: findall_digits.induct)
  case 1
  show ?case by (simp add: is_run_Nil)
next
  case (2 c cs)
  show ?case
  proof (cases "is_digit c")
    case True
    from 2(1) [OF True] show ?thesis using True by (simp add: is_run_first)
  next
    case False
    from 2(2) [OF False] show ?thesis using False by (simp add: is_run_skip)
  qed
qed

lemma runs_set: "{g. is_run s g} = set (findall_digits s)"
  using findall_digits_is_run by blast

lemma block_in_run:
  assumes "s = a @ g @ b" "\<forall>c\<in>set g. is_digit c" "g \<noteq> []"
  shows "\<exists>r. is_run s r \<and> length g \<le> length r"
proof -
  define l where "l = rev (takeWhile is_digit (rev a))"
  define pre where "pre = rev (dropWhile is_digit (rev a))"
  define r where "r = l @ g @ takeWhile is_digit b"
  have "pre @ l = rev (takeWhile is_digit (rev a) @ dropWhile is_digit (rev a))"
    unfolding pre_def l_def by (simp only: rev_append)
  also have "\<dots> = a" by simp
  finally have a: "a = pre @ l" by (rule sym)
  have b: "b = takeWhile is_digit b @ dropWhile is_digit b" by simp
  have e: "s = pre @ r @ dropWhile is_digit b"
    unfolding r_def assms(1) using a b by (metis append.assoc)
  have n: "r \<noteq> []" unfolding r_def using assms(3) by simp
  have "\<forall>x\<in>set l. is_digit x" unfolding l_def using takeWhile_all_digits [of "rev a"] by simp
  then have d: "\<forall>x\<in>set r. is_digit x"
    unfolding r_def using assms(2) takeWhile_all_digits [of b] by auto
  have p: "pre = [] \<or> \<not> is_digit (last pre)"
  proof (cases "dropWhile is_digit (rev a) = []")
    case True
    then show ?thesis by (simp add: pre_def)
  next
    case False
    then have "\<not> is_digit (hd (dropWhile is_digit (rev a)))" by (rule hd_dropWhile)
    then show ?thesis using False by (simp add: pre_def last_rev)
  qed
  have q: "dropWhile is_digit b = [] \<or> \<not> is_digit (hd (dropWhile is_digit b))"
    by (rule dropWhile_head)
  from e n d p q have "s = pre @ r @ dropWhile is_digit b \<and> r \<noteq> [] \<and> (\<forall>x\<in>set r. is_digit x)
      \<and> (pre = [] \<or> \<not> is_digit (last pre))
      \<and> (dropWhile is_digit b = [] \<or> \<not> is_digit (hd (dropWhile is_digit b)))"
    by (intro conjI)
  then have "is_run s r" unfolding is_run_def by (intro exI)
  moreover have "length g \<le> length r" unfolding r_def by simp
  ultimately show ?thesis by (intro exI conjI)
qed

lemma block_short:
  assumes "\<forall>r. is_run s r \<longrightarrow> length r \<le> n" "s = a @ g @ b" "\<forall>c\<in>set g. is_digit c" "g \<noteq> []"
  shows "length g \<le> n"
proof -
  from block_in_run [OF assms(2,3,4)] obtain r where "is_run s r" "length g \<le> length r"
    by (elim exE conjE)
  with assms(1) show ?thesis by force
qed

section \<open>Dictionaries and the loop over the documents\<close>

lemma map_of_project:
  "map_of (project d) k = (if k \<in> set projection then map_of d k else None)"
  unfolding project_def by (induction d) auto

lemma map_of_update_same: "map_of (AList.update k v d) k = Some v"
  by (simp add: update_conv')

lemma map_of_update_other: "k' \<noteq> k \<Longrightarrow> map_of (AList.update k v d) k' = map_of d k'"
  by (simp add: update_conv')

lemma for_each_Inr_iff:
  "(\<exists>ys. for_each f xs = Inr ys) \<longleftrightarrow> (\<forall>x\<in>set xs. \<exists>y. f x = Inr y)"
proof (induction xs)
  case Nil
  then show ?case by simp
next
  case (Cons x xs)
  show ?case
  proof (cases "f x")
    case (Inl e)
    then show ?thesis by auto
  next
    case (Inr y)
    then show ?thesis using Cons by (cases "for_each f xs") auto
  qed
qed

lemma for_each_nth:
  "for_each f xs = Inr ys \<Longrightarrow> length ys = length xs \<and> (\<forall>i<length xs. f (xs ! i) = Inr (ys ! i))"
proof (induction xs arbitrary: ys)
  case Nil
  then show ?case by simp
next
  case (Cons x xs)
  from Cons.prems obtain y ys' where y: "f x = Inr y" and r: "for_each f xs = Inr ys'" and e: "ys = y # ys'"
    by (auto split: sum.splits)
  from Cons.IH [OF r] have "length ys' = length xs" and n: "\<forall>i<length xs. f (xs ! i) = Inr (ys' ! i)"
    by simp_all
  then show ?case using y e by (auto simp: nth_Cons split: nat.splits)
qed

lemma for_each_results:
  assumes "for_each f xs = Inr ys" shows "\<forall>y\<in>set ys. \<exists>x\<in>set xs. f x = Inr y"
proof -
  from for_each_nth [OF assms] have l: "length ys = length xs"
    and n: "\<forall>i<length xs. f (xs ! i) = Inr (ys ! i)" by simp_all
  show ?thesis
  proof
    fix y assume "y \<in> set ys"
    then obtain i where i: "i < length ys" "ys ! i = y" by (auto simp: in_set_conv_nth)
    with l n have "xs ! i \<in> set xs" "f (xs ! i) = Inr y" by simp_all
    then show "\<exists>x\<in>set xs. f x = Inr y" by (rule bexI [rotated])
  qed
qed

section \<open>The rules of performance extraction\<close>

lemma py_trunc_toward_zero:
  "\<bar>of_int (py_trunc q)\<bar> \<le> \<bar>q\<bar> \<and> \<bar>q\<bar> < \<bar>of_int (py_trunc q)\<bar> + 1 \<and> 0 \<le> of_int (py_trunc q) * q"
proof (cases "0 \<le> q")
  case True
  then have z: "py_trunc q = \<lfloor>q\<rfloor>" by (simp add: py_trunc_def)
  have a: "(0::rat) \<le> of_int \<lfloor>q\<rfloor>" using True by simp
  have b: "of_int \<lfloor>q\<rfloor> \<le> q" by (rule of_int_floor_le)
  have c: "q < of_int \<lfloor>q\<rfloor> + 1" by linarith
  from a True have "0 \<le> of_int \<lfloor>q\<rfloor> * q" by (rule mult_nonneg_nonneg)
  with a b c True show ?thesis unfolding z by simp
next
  case False
  then have z: "py_trunc q = \<lceil>q\<rceil>" by (simp add: py_trunc_def)
  have a: "of_int \<lceil>q\<rceil> \<le> (0::rat)" using False by (simp add: ceiling_le_zero)
  have b: "q \<le> of_int \<lceil>q\<rceil>" by (rule le_of_int_ceiling)
  have c: "of_int \<lceil>q\<rceil> - 1 < q" by linarith
  from False have "q \<le> 0" by simp
  with a have "0 \<le> of_int \<lceil>q\<rceil> * q" by (rule mult_nonpos_nonpos)
  with a b c False show ?thesis unfolding z by simp
qed

lemma rule_up_to:
  assumes "up_to_match s pre g"
    and "\<forall>pre' g'. up_to_match s pre' g' \<longrightarrow> length pre \<le> length pre'"
    and "length g \<le> max_str_digits"
  shows "extract_performance (VStr s) = Inr (decimal_value g, Continue)"
  using search_up_to_leftmost [OF assms(1,2)] py_int_short [OF assms(3)] by simp

lemma rule_up_to_long:
  assumes "up_to_match s pre g"
    and "\<forall>pre' g'. up_to_match s pre' g' \<longrightarrow> length pre \<le> length pre'"
    and "max_str_digits < length g"
  shows "extract_performance (VStr s) = Inl ValueError"
  using search_up_to_leftmost [OF assms(1,2)] py_int_long [OF assms(3)] by simp

lemma rule_tops:
  assumes "\<forall>pre' g'. \<not> up_to_match s pre' g'"
    and "tops_match s pre g"
    and "\<forall>pre' g'. tops_match s pre' g' \<longrightarrow> length pre \<le> length pre'"
    and "length g \<le> max_str_digits"
  shows "extract_performance (VStr s) = Inr (decimal_value g, Continue)"
  using search_up_to_None [OF assms(1)] search_tops_leftmost [OF assms(2,3)]
    py_int_short [OF assms(4)] by simp

lemma rule_runs:
  assumes "\<forall>pre' g'. \<not> up_to_match s pre' g'"
    and "\<forall>pre' g'. \<not> tops_match s pre' g'"
    and "\<exists>c\<in>set s. is_digit c"
    and "\<forall>r. is_run s r \<longrightarrow> length r \<le> max_str_digits"
  shows "extract_performance (VStr s) = Inr (Max (decimal_value ` {r. is_run s r}), Continue)"
proof -
  from assms(3) have "findall_digits s \<noteq> []" by (simp add: findall_digits_Nil)
  then obtain r rs where rs: "findall_digits s = r # rs" by (cases "findall_digits s") auto
  have "\<forall>x\<in>set (r # rs). length x \<le> max_str_digits"
    unfolding rs [symmetric] using assms(4) by (simp add: findall_digits_is_run)
  then have f: "for_each py_int (r # rs) = Inr (map decimal_value (r # rs))"
    by (rule for_each_py_int)
  have "max_list (map decimal_value (r # rs)) = Max (set (map decimal_value (r # rs)))"
    using max_list_Max [of "decimal_value r" "map decimal_value rs"] by simp
  also have "\<dots> = Max (decimal_value ` {r. is_run s r})"
    unfolding runs_set rs by simp
  finally have m: "max_list (map decimal_value (r # rs)) = Max (decimal_value ` {r. is_run s r})" .
  have "extract_performance (VStr s) =
      (case for_each py_int (r # rs) of Inl e \<Rightarrow> Inl e | Inr ns \<Rightarrow> Inr (max_list ns, Continue))"
    using search_up_to_None [OF assms(1)] search_tops_None [OF assms(2)] rs
    by (simp del: for_each.simps)
  also have "\<dots> = Inr (max_list (map decimal_value (r # rs)), Continue)"
    unfolding f by simp
  finally show ?thesis unfolding m .
qed

lemma rule_none:
  assumes "\<forall>c\<in>set s. \<not> is_digit c"
  shows "extract_performance (VStr s) = Inr (0, Fallthrough)"
proof -
  have "\<forall>pre g. \<not> up_to_match s pre g" using no_digit_no_up_to [OF assms] by simp
  then have u: "search_up_to s = None" by (rule search_up_to_None)
  have "\<forall>pre g. \<not> tops_match s pre g" using no_digit_no_tops [OF assms] by simp
  then have t: "search_tops s = None" by (rule search_tops_None)
  from assms have "findall_digits s = []" by (simp add: findall_digits_Nil)
  with u t show ?thesis by simp
qed

lemma rule_whole_text:
  assumes "map ascii_lower u = ''up to ''" "ds \<noteq> []" "\<forall>c\<in>set ds. is_digit c"
    and "length ds \<le> max_str_digits" "t = [] \<or> map ascii_lower t = '' tops''"
  shows "extract_performance (VStr (u @ ds @ t)) = Inr (decimal_value ds, Continue)"
proof -
  have p: "t = [] \<or> \<not> is_digit (hd t)"
    using assms(5)
  proof (elim disjE)
    assume "t = []"
    then show ?thesis by (rule disjI1)
  next
    assume "map ascii_lower t = '' tops''"
    then have "\<not> is_digit (hd t)" by (rule tops_tail_no_digit)
    then show ?thesis by (rule disjI2)
  qed
  have "u @ ds @ t = [] @ u @ ds @ t" by simp
  with assms(1,2,3) p have "u @ ds @ t = [] @ u @ ds @ t \<and> map ascii_lower u = ''up to '' \<and> ds \<noteq> []
        \<and> (\<forall>c\<in>set ds. is_digit c) \<and> (t = [] \<or> \<not> is_digit (hd t))"
    by (intro conjI)
  then have m: "up_to_match (u @ ds @ t) [] ds" unfolding up_to_match_def by (intro exI)
  have l: "\<forall>pre' g'. up_to_match (u @ ds @ t) pre' g' \<longrightarrow> length ([]::string) \<le> length pre'"
    by simp
  from m l assms(4) show ?thesis by (rule rule_up_to)
qed

lemma rule_bare_numbers:
  assumes "\<not> contains ''up to'' (map ascii_lower w)" "\<not> contains ''tops'' (map ascii_lower w)"
    and "\<exists>c\<in>set w. is_digit c" "\<forall>r. is_run w r \<longrightarrow> length r \<le> max_str_digits"
  shows "extract_performance (VStr w) = Inr (Max (decimal_value ` {r. is_run w r}), Continue)"
proof -
  have a: "\<forall>pre' g'. \<not> up_to_match w pre' g'"
  proof (intro allI notI)
    fix pre' g' assume "up_to_match w pre' g'"
    then have "contains ''up to'' (map ascii_lower w)" by (rule up_to_match_contains)
    with assms(1) show False by (rule notE)
  qed
  have b: "\<forall>pre' g'. \<not> tops_match w pre' g'"
  proof (intro allI notI)
    fix pre' g' assume "tops_match w pre' g'"
    then have "contains ''tops'' (map ascii_lower w)" by (rule tops_match_contains)
    with assms(2) show False by (rule notE)
  qed
  from a b assms(3,4) show ?thesis by (rule rule_runs)
qed

text \<open>
  Claim C1, as amended. The performance value is found by the rules in their order, the
  first that applies winning, as long as no more than 4300 digits are converted at once.
  The leftmost \<^verbatim>\<open>Up to N\<close> in any casing gives the number that the digits \<open>N\<close>
  write; otherwise the leftmost \<^verbatim>\<open>N TOPS\<close>, white space or none before the unit, gives
  that number; otherwise a text with a digit gives the largest of the numbers its runs of
  digits write, and a text without a digit gives 0. An integer is passed through, a boolean
  gives 1 or 0, a finite double is truncated towards zero, and null, the double that is not
  a number, an object identifier, a list and a mapping give 0. In particular a text of the
  form \<^verbatim>\<open>Up to N\<close> or \<^verbatim>\<open>Up to N TOPS\<close>, in any casing, gives \<open>N\<close>, and a text with
  digits that has neither qualifier gives the largest of its numbers.
\<close>

theorem performance_rules_in_order:
  "(up_to_match s pre g \<and> (\<forall>pre' g'. up_to_match s pre' g' \<longrightarrow> length pre \<le> length pre')
      \<and> length g \<le> max_str_digits \<longrightarrow>
     extract_performance (VStr s) = Inr (decimal_value g, Continue))
   \<and> ((\<forall>pre' g'. \<not> up_to_match s2 pre' g') \<and> tops_match s2 pre2 g2
      \<and> (\<forall>pre' g'. tops_match s2 pre' g' \<longrightarrow> length pre2 \<le> length pre')
      \<and> length g2 \<le> max_str_digits \<longrightarrow>
     extract_performance (VStr s2) = Inr (decimal_value g2, Continue))
   \<and> ((\<forall>pre' g'. \<not> up_to_match s3 pre' g') \<and> (\<forall>pre' g'. \<not> tops_match s3 pre' g')
      \<and> (\<exists>c\<in>set s3. is_digit c) \<and> (\<forall>r. is_run s3 r \<longrightarrow> length r \<le> max_str_digits) \<longrightarrow>
     extract_performance (VStr s3) = Inr (Max (decimal_value ` {r. is_run s3 r}), Continue))
   \<and> ((\<forall>c\<in>set s4. \<not> is_digit c) \<longrightarrow> extract_performance (VStr s4) = Inr (0, Fallthrough))
   \<and> extract_performance (VInt i) = Inr (i, Fallthrough)
   \<and> extract_performance (VBool b) = Inr (if b then 1 else 0, Fallthrough)
   \<and> (\<exists>z. extract_performance (VFloat (Finite q)) = Inr (z, Fallthrough)
        \<and> \<bar>of_int z\<bar> \<le> \<bar>q\<bar> \<and> \<bar>q\<bar> < \<bar>of_int z\<bar> + 1 \<and> 0 \<le> of_int z * q)
   \<and> extract_performance (VFloat NaN) = Inr (0, Fallthrough)
   \<and> extract_performance VNone = Inr (0, Fallthrough)
   \<and> extract_performance (VOid h) = Inr (0, Fallthrough)
   \<and> extract_performance (VList xs) = Inr (0, Fallthrough)
   \<and> extract_performance (VDict m) = Inr (0, Fallthrough)
   \<and> (map ascii_lower u = ''up to '' \<and> ds \<noteq> [] \<and> (\<forall>c\<in>set ds. is_digit c)
        \<and> length ds \<le> max_str_digits \<and> (t = [] \<or> map ascii_lower t = '' tops'') \<longrightarrow>
       extract_performance (VStr (u @ ds @ t)) = Inr (decimal_value ds, Continue))
   \<and> (\<not> contains ''up to'' (map ascii_lower w) \<and> \<not> contains ''tops'' (map ascii_lower w)
        \<and> (\<exists>c\<in>set w. is_digit c) \<and> (\<forall>r. is_run w r \<longrightarrow> length r \<le> max_str_digits) \<longrightarrow>
       extract_performance (VStr w) = Inr (Max (decimal_value ` {r. is_run w r}), Continue))"
proof -
  have r1: "up_to_match s pre g \<and> (\<forall>pre' g'. up_to_match s pre' g' \<longrightarrow> length pre \<le> length pre')
      \<and> length g \<le> max_str_digits \<longrightarrow>
     extract_performance (VStr s) = Inr (decimal_value g, Continue)"
    by (intro impI, elim conjE) (rule rule_up_to)
  have r2: "(\<forall>pre' g'. \<not> up_to_match s2 pre' g') \<and> tops_match s2 pre2 g2
      \<and> (\<forall>pre' g'. tops_match s2 pre' g' \<longrightarrow> length pre2 \<le> length pre')
      \<and> length g2 \<le> max_str_digits \<longrightarrow>
     extract_performance (VStr s2) = Inr (decimal_value g2, Continue)"
    by (intro impI, elim conjE) (rule rule_tops)
  have r3: "(\<forall>pre' g'. \<not> up_to_match s3 pre' g') \<and> (\<forall>pre' g'. \<not> tops_match s3 pre' g')
      \<and> (\<exists>c\<in>set s3. is_digit c) \<and> (\<forall>r. is_run s3 r \<longrightarrow> length r \<le> max_str_digits) \<longrightarrow>
     extract_performance (VStr s3) = Inr (Max (decimal_value ` {r. is_run s3 r}), Continue)"
    by (intro impI, elim conjE) (rule rule_runs)
  have r4: "(\<forall>c\<in>set s4. \<not> is_digit c) \<longrightarrow> extract_performance (VStr s4) = Inr (0, Fallthrough)"
    by (intro impI) (rule rule_none)
  have fl: "\<exists>z. extract_performance (VFloat (Finite q)) = Inr (z, Fallthrough)
        \<and> \<bar>of_int z\<bar> \<le> \<bar>q\<bar> \<and> \<bar>q\<bar> < \<bar>of_int z\<bar> + 1 \<and> 0 \<le> of_int z * q"
  proof -
    have "extract_performance (VFloat (Finite q)) = Inr (py_trunc q, Fallthrough)" by simp
    with py_trunc_toward_zero [of q]
    have "extract_performance (VFloat (Finite q)) = Inr (py_trunc q, Fallthrough)
        \<and> \<bar>of_int (py_trunc q)\<bar> \<le> \<bar>q\<bar> \<and> \<bar>q\<bar> < \<bar>of_int (py_trunc q)\<bar> + 1
        \<and> 0 \<le> of_int (py_trunc q) * q"
      by (intro conjI) (elim conjE, assumption)+
    then show ?thesis by (rule exI)
  qed
  have form: "map ascii_lower u = ''up to '' \<and> ds \<noteq> [] \<and> (\<forall>c\<in>set ds. is_digit c)
        \<and> length ds \<le> max_str_digits \<and> (t = [] \<or> map ascii_lower t = '' tops'') \<longrightarrow>
       extract_performance (VStr (u @ ds @ t)) = Inr (decimal_value ds, Continue)"
    by (intro impI, elim conjE) (rule rule_whole_text)
  have bare: "\<not> contains ''up to'' (map ascii_lower w) \<and> \<not> contains ''tops'' (map ascii_lower w)
        \<and> (\<exists>c\<in>set w. is_digit c) \<and> (\<forall>r. is_run w r \<longrightarrow> length r \<le> max_str_digits) \<longrightarrow>
       extract_performance (VStr w) = Inr (Max (decimal_value ` {r. is_run w r}), Continue)"
    by (intro impI, elim conjE) (rule rule_bare_numbers)
  have simple: "extract_performance (VInt i) = Inr (i, Fallthrough)"
    "extract_performance (VBool b) = Inr (if b then 1 else 0, Fallthrough)"
    "extract_performance (VFloat NaN) = Inr (0, Fallthrough)"
    "extract_performance VNone = Inr (0, Fallthrough)"
    "extract_performance (VOid h) = Inr (0, Fallthrough)"
    "extract_performance (VList xs) = Inr (0, Fallthrough)"
    "extract_performance (VDict m) = Inr (0, Fallthrough)"
    by simp_all
  from r1 r2 r3 r4 simple(1,2) fl simple(3-7) form bare show ?thesis
    by (intro conjI)
qed

theorem performance_rules_in_order_witness:
  "extract_performance (VStr ''32 TOPS, up to 16'') = Inr (16, Continue)
   \<and> extract_performance (VStr ''16 tops'') = Inr (16, Continue)
   \<and> extract_performance (VStr ''4 or 16'') = Inr (16, Continue)
   \<and> extract_performance (VStr ''unknown'') = Inr (0, Fallthrough)
   \<and> extract_performance (VStr (''uP tO '' @ ''8'' @ '' Tops'')) = Inr (8, Continue)
   \<and> extract_performance (VStr ''8, 32 and 16'') = Inr (32, Continue)"
proof -
  note t = performance_rules_in_order [where s = "''32 TOPS, up to 16''" and pre = "''32 TOPS, ''"
      and g = "''16''" and ?s2.0 = "''16 tops''" and ?pre2.0 = "[]" and ?g2.0 = "''16''"
      and ?s3.0 = "''4 or 16''" and ?s4.0 = "''unknown''" and u = "''uP tO ''" and ds = "''8''"
      and t = "'' Tops''" and w = "''8, 32 and 16''" and i = 0 and b = True and q = 0
      and h = "[]" and xs = "[]" and m = "[]"]
  have a: "extract_performance (VStr ''32 TOPS, up to 16'') = Inr (16, Continue)"
  proof -
    have "''32 TOPS, up to 16'' = ''32 TOPS, '' @ ''up to '' @ ''16'' @ []
        \<and> map ascii_lower ''up to '' = ''up to '' \<and> ''16'' \<noteq> [] \<and> (\<forall>c\<in>set ''16''. is_digit c)
        \<and> (([]::string) = [] \<or> \<not> is_digit (hd []))"
      by code_simp
    then have m: "up_to_match ''32 TOPS, up to 16'' ''32 TOPS, '' ''16''"
      unfolding up_to_match_def by (intro exI)
    have e: "\<forall>i\<in>set [0..<9]. take 6 (drop i (map ascii_lower ''32 TOPS, up to 16'')) \<noteq> ''up to ''"
      by code_simp
    have l: "\<forall>pre' g'. up_to_match ''32 TOPS, up to 16'' pre' g' \<longrightarrow> length ''32 TOPS, '' \<le> length pre'"
    proof (intro allI impI)
      fix pre' g' assume h: "up_to_match ''32 TOPS, up to 16'' pre' g'"
      show "length ''32 TOPS, '' \<le> length pre'"
      proof (rule ccontr)
        assume "\<not> length ''32 TOPS, '' \<le> length pre'"
        then have "length pre' \<in> set [0..<9]" by simp
        with e have "take 6 (drop (length pre') (map ascii_lower ''32 TOPS, up to 16'')) \<noteq> ''up to ''"
          by (rule bspec)
        from this up_to_match_at [OF h] show False by (rule notE)
      qed
    qed
    have k: "length ''16'' \<le> max_str_digits" by (simp add: max_str_digits_def)
    from t have "up_to_match ''32 TOPS, up to 16'' ''32 TOPS, '' ''16''
        \<and> (\<forall>pre' g'. up_to_match ''32 TOPS, up to 16'' pre' g' \<longrightarrow> length ''32 TOPS, '' \<le> length pre')
        \<and> length ''16'' \<le> max_str_digits \<longrightarrow>
       extract_performance (VStr ''32 TOPS, up to 16'') = Inr (decimal_value ''16'', Continue)"
      by (elim conjE)
    moreover from m l k have "up_to_match ''32 TOPS, up to 16'' ''32 TOPS, '' ''16''
        \<and> (\<forall>pre' g'. up_to_match ''32 TOPS, up to 16'' pre' g' \<longrightarrow> length ''32 TOPS, '' \<le> length pre')
        \<and> length ''16'' \<le> max_str_digits"
      by (intro conjI)
    ultimately have "extract_performance (VStr ''32 TOPS, up to 16'') = Inr (decimal_value ''16'', Continue)"
      by (rule mp)
    moreover have "decimal_value ''16'' = 16" by code_simp
    ultimately show ?thesis by (simp only:)
  qed
  have no_up: "\<forall>pre' g'. \<not> up_to_match s pre' g'" if "\<not> contains ''up to'' (map ascii_lower s)" for s
  proof (intro allI notI)
    fix pre' g' assume "up_to_match s pre' g'"
    then have "contains ''up to'' (map ascii_lower s)" by (rule up_to_match_contains)
    with that show False by (rule notE)
  qed
  have no_tops: "\<forall>pre' g'. \<not> tops_match s pre' g'" if "\<not> contains ''tops'' (map ascii_lower s)" for s
  proof (intro allI notI)
    fix pre' g' assume "tops_match s pre' g'"
    then have "contains ''tops'' (map ascii_lower s)" by (rule tops_match_contains)
    with that show False by (rule notE)
  qed
  have b: "extract_performance (VStr ''16 tops'') = Inr (16, Continue)"
  proof -
    have "\<not> contains ''up to'' (map ascii_lower ''16 tops'')" by code_simp
    then have n: "\<forall>pre' g'. \<not> up_to_match ''16 tops'' pre' g'" by (rule no_up)
    have "''16 tops'' = [] @ ''16'' @ '' '' @ ''tops'' @ [] \<and> ''16'' \<noteq> []
        \<and> (\<forall>c\<in>set ''16''. is_digit c) \<and> (\<forall>c\<in>set '' ''. is_space c)
        \<and> map ascii_lower ''tops'' = ''tops''"
      by code_simp
    then have m: "tops_match ''16 tops'' [] ''16''"
      unfolding tops_match_def by (intro exI)
    have l: "\<forall>pre' g'. tops_match ''16 tops'' pre' g' \<longrightarrow> length ([]::string) \<le> length pre'"
      by simp
    have k: "length ''16'' \<le> max_str_digits" by (simp add: max_str_digits_def)
    from t have "(\<forall>pre' g'. \<not> up_to_match ''16 tops'' pre' g') \<and> tops_match ''16 tops'' [] ''16''
        \<and> (\<forall>pre' g'. tops_match ''16 tops'' pre' g' \<longrightarrow> length ([]::string) \<le> length pre')
        \<and> length ''16'' \<le> max_str_digits \<longrightarrow>
       extract_performance (VStr ''16 tops'') = Inr (decimal_value ''16'', Continue)"
      by (elim conjE)
    moreover from n m l k have "(\<forall>pre' g'. \<not> up_to_match ''16 tops'' pre' g') \<and> tops_match ''16 tops'' [] ''16''
        \<and> (\<forall>pre' g'. tops_match ''16 tops'' pre' g' \<longrightarrow> length ([]::string) \<le> length pre')
        \<and> length ''16'' \<le> max_str_digits"
      by (intro conjI)
    ultimately have "extract_performance (VStr ''16 tops'') = Inr (decimal_value ''16'', Continue)"
      by (rule mp)
    moreover have "decimal_value ''16'' = 16" by code_simp
    ultimately show ?thesis by (simp only:)
  qed
  have short: "\<forall>r. is_run s r \<longrightarrow> length r \<le> max_str_digits"
    if "\<forall>r\<in>set (findall_digits s). length r \<le> max_str_digits" for s
    using that by (simp add: findall_digits_is_run)
  have c: "extract_performance (VStr ''4 or 16'') = Inr (16, Continue)"
  proof -
    have "\<not> contains ''up to'' (map ascii_lower ''4 or 16'')" by code_simp
    then have n1: "\<forall>pre' g'. \<not> up_to_match ''4 or 16'' pre' g'" by (rule no_up)
    have "\<not> contains ''tops'' (map ascii_lower ''4 or 16'')" by code_simp
    then have n2: "\<forall>pre' g'. \<not> tops_match ''4 or 16'' pre' g'" by (rule no_tops)
    have d: "\<exists>c\<in>set ''4 or 16''. is_digit c" by code_simp
    have "\<forall>r\<in>set (findall_digits ''4 or 16''). length r \<le> max_str_digits" by code_simp
    then have k: "\<forall>r. is_run ''4 or 16'' r \<longrightarrow> length r \<le> max_str_digits" by (rule short)
    from t have "(\<forall>pre' g'. \<not> up_to_match ''4 or 16'' pre' g') \<and> (\<forall>pre' g'. \<not> tops_match ''4 or 16'' pre' g')
        \<and> (\<exists>c\<in>set ''4 or 16''. is_digit c) \<and> (\<forall>r. is_run ''4 or 16'' r \<longrightarrow> length r \<le> max_str_digits) \<longrightarrow>
       extract_performance (VStr ''4 or 16'') = Inr (Max (decimal_value ` {r. is_run ''4 or 16'' r}), Continue)"
      by (elim conjE)
    moreover from n1 n2 d k have "(\<forall>pre' g'. \<not> up_to_match ''4 or 16'' pre' g') \<and> (\<forall>pre' g'. \<not> tops_match ''4 or 16'' pre' g')
        \<and> (\<exists>c\<in>set ''4 or 16''. is_digit c) \<and> (\<forall>r. is_run ''4 or 16'' r \<longrightarrow> length r \<le> max_str_digits)"
      by (intro conjI)
    ultimately have "extract_performance (VStr ''4 or 16'')
        = Inr (Max (decimal_value ` {r. is_run ''4 or 16'' r}), Continue)"
      by (rule mp)
    moreover have "Max (decimal_value ` set (findall_digits ''4 or 16'')) = 16" by code_simp
    ultimately show ?thesis by (simp only: runs_set)
  qed
  have d: "extract_performance (VStr ''unknown'') = Inr (0, Fallthrough)"
  proof -
    have n: "\<forall>c\<in>set ''unknown''. \<not> is_digit c" by code_simp
    from t have "(\<forall>c\<in>set ''unknown''. \<not> is_digit c) \<longrightarrow>
        extract_performance (VStr ''unknown'') = Inr (0, Fallthrough)"
      by (elim conjE)
    from this n show ?thesis by (rule mp)
  qed
  have e: "extract_performance (VStr (''uP tO '' @ ''8'' @ '' Tops'')) = Inr (8, Continue)"
  proof -
    have h: "map ascii_lower ''uP tO '' = ''up to '' \<and> ''8'' \<noteq> [] \<and> (\<forall>c\<in>set ''8''. is_digit c)
        \<and> length ''8'' \<le> max_str_digits \<and> ('' Tops'' = [] \<or> map ascii_lower '' Tops'' = '' tops'')"
      by code_simp
    from t have "map ascii_lower ''uP tO '' = ''up to '' \<and> ''8'' \<noteq> [] \<and> (\<forall>c\<in>set ''8''. is_digit c)
        \<and> length ''8'' \<le> max_str_digits \<and> ('' Tops'' = [] \<or> map ascii_lower '' Tops'' = '' tops'') \<longrightarrow>
       extract_performance (VStr (''uP tO '' @ ''8'' @ '' Tops'')) = Inr (decimal_value ''8'', Continue)"
      by (elim conjE)
    from this h have "extract_performance (VStr (''uP tO '' @ ''8'' @ '' Tops''))
        = Inr (decimal_value ''8'', Continue)"
      by (rule mp)
    moreover have "decimal_value ''8'' = 8" by code_simp
    ultimately show ?thesis by (simp only:)
  qed
  have f: "extract_performance (VStr ''8, 32 and 16'') = Inr (32, Continue)"
  proof -
    have "\<forall>r\<in>set (findall_digits ''8, 32 and 16''). length r \<le> max_str_digits" by code_simp
    then have k: "\<forall>r. is_run ''8, 32 and 16'' r \<longrightarrow> length r \<le> max_str_digits" by (rule short)
    have h: "\<not> contains ''up to'' (map ascii_lower ''8, 32 and 16'')
        \<and> \<not> contains ''tops'' (map ascii_lower ''8, 32 and 16'')
        \<and> (\<exists>c\<in>set ''8, 32 and 16''. is_digit c)"
      by code_simp
    from h k have h': "\<not> contains ''up to'' (map ascii_lower ''8, 32 and 16'')
        \<and> \<not> contains ''tops'' (map ascii_lower ''8, 32 and 16'')
        \<and> (\<exists>c\<in>set ''8, 32 and 16''. is_digit c)
        \<and> (\<forall>r. is_run ''8, 32 and 16'' r \<longrightarrow> length r \<le> max_str_digits)"
      by (intro conjI) (elim conjE, assumption)+
    from t have "\<not> contains ''up to'' (map ascii_lower ''8, 32 and 16'')
        \<and> \<not> contains ''tops'' (map ascii_lower ''8, 32 and 16'')
        \<and> (\<exists>c\<in>set ''8, 32 and 16''. is_digit c)
        \<and> (\<forall>r. is_run ''8, 32 and 16'' r \<longrightarrow> length r \<le> max_str_digits) \<longrightarrow>
       extract_performance (VStr ''8, 32 and 16'')
         = Inr (Max (decimal_value ` {r. is_run ''8, 32 and 16'' r}), Continue)"
      by (elim conjE)
    from this h' have "extract_performance (VStr ''8, 32 and 16'')
         = Inr (Max (decimal_value ` {r. is_run ''8, 32 and 16'' r}), Continue)"
      by (rule mp)
    moreover have "Max (decimal_value ` set (findall_digits ''8, 32 and 16'')) = 32" by code_simp
    ultimately show ?thesis by (simp only: runs_set)
  qed
  from a b c d e f show ?thesis by (intro conjI)
qed

text \<open>
  The claim as written fails where the conversion does: a number of 4301 digits after
  \<^verbatim>\<open>Up to\<close> is refused by \<^verbatim>\<open>int\<close>, and an infinite double is neither converted
  nor replaced by 0.
\<close>

theorem unconvertible_performance_counterexample:
  "extract_performance (VStr (''Up to '' @ replicate 4301 (CHR ''9'') @ '' TOPS'')) = Inl ValueError
   \<and> extract_performance (VFloat PosInf) = Inl OverflowError"
proof -
  define g where "g = replicate 4301 (CHR ''9'')"
  have u: "map ascii_lower ''Up to '' = ''up to ''" by code_simp
  have n: "g \<noteq> []" by (simp add: g_def)
  have d: "\<forall>c\<in>set g. is_digit c" by (simp add: g_def is_digit_def)
  have p: "'' TOPS'' = [] \<or> \<not> is_digit (hd '' TOPS'')" by (simp add: is_digit_def)
  have e: "''Up to '' @ g @ '' TOPS'' = [] @ ''Up to '' @ g @ '' TOPS''" by simp
  from e u n d p have "''Up to '' @ g @ '' TOPS'' = [] @ ''Up to '' @ g @ '' TOPS''
      \<and> map ascii_lower ''Up to '' = ''up to '' \<and> g \<noteq> [] \<and> (\<forall>c\<in>set g. is_digit c)
      \<and> ('' TOPS'' = [] \<or> \<not> is_digit (hd '' TOPS''))"
    by (intro conjI)
  then have m: "up_to_match (''Up to '' @ g @ '' TOPS'') [] g"
    unfolding up_to_match_def by (intro exI)
  have l: "\<forall>pre' g'. up_to_match (''Up to '' @ g @ '' TOPS'') pre' g' \<longrightarrow> length ([]::string) \<le> length pre'"
    by simp
  have k: "max_str_digits < length g" by (simp add: g_def max_str_digits_def)
  from m l k have "extract_performance (VStr (''Up to '' @ g @ '' TOPS'')) = Inl ValueError"
    by (rule rule_up_to_long)
  then show ?thesis unfolding g_def by simp
qed

lemma normalize_device_status:
  assumes "normalize_device st seen m = Inr d"
  shows "map_of d ''status'' = Some (VStr (status_of (map_of (doc_fields m) ''Super Mode'')))
       \<and> map_of d ''formatted_status'' = Some (VStr (formatted_status_of (map_of (doc_fields m) ''Super Mode'')))"
proof -
  have sm: "map_of (project (to_dict m)) ''Super Mode'' = map_of (doc_fields m) ''Super Mode''"
    by (simp add: map_of_project projection_def to_dict_def)
  show ?thesis
    using assms sm
    by (auto simp: normalize_device_def Let_def update_conv' split: sum.splits flow.splits prod.splits)
qed

section \<open>Status\<close>

text \<open>
  Claim C5. The status depends on the \<^verbatim>\<open>Super Mode\<close> field alone: it is
  \<^verbatim>\<open>enabled\<close> exactly when the field is the string \<^verbatim>\<open>Enable\<close> and
  \<^verbatim>\<open>disabled\<close> for every other value, a missing field and null included; the formatted
  status is the fixed text chosen by the same test. Every view that normalization returns
  carries these two values.
\<close>

theorem status_from_super_mode:
  "(status_of sm = ''enabled'' \<longleftrightarrow> sm = Some (VStr ''Enable''))
   \<and> (status_of sm = ''disabled'' \<longleftrightarrow> sm \<noteq> Some (VStr ''Enable''))
   \<and> (formatted_status_of sm = ''Super Mode: Enabled'' \<longleftrightarrow> sm = Some (VStr ''Enable''))
   \<and> (formatted_status_of sm = ''Super Mode: Disabled'' \<longleftrightarrow> sm \<noteq> Some (VStr ''Enable''))
   \<and> (normalize_device st seen m = Inr d \<longrightarrow>
        map_of d ''status'' = Some (VStr (status_of (map_of (doc_fields m) ''Super Mode'')))
        \<and> map_of d ''formatted_status'' =
            Some (VStr (formatted_status_of (map_of (doc_fields m) ''Super Mode''))))"
proof -
  have a: "(status_of sm = ''enabled'' \<longleftrightarrow> sm = Some (VStr ''Enable''))
   \<and> (status_of sm = ''disabled'' \<longleftrightarrow> sm \<noteq> Some (VStr ''Enable''))"
    by (simp add: status_of_def)
  have b: "(formatted_status_of sm = ''Super Mode: Enabled'' \<longleftrightarrow> sm = Some (VStr ''Enable''))
   \<and> (formatted_status_of sm = ''Super Mode: Disabled'' \<longleftrightarrow> sm \<noteq> Some (VStr ''Enable''))"
    by (simp add: formatted_status_of_def)
  have c: "normalize_device st seen m = Inr d \<longrightarrow>
        map_of d ''status'' = Some (VStr (status_of (map_of (doc_fields m) ''Super Mode'')))
        \<and> map_of d ''formatted_status'' =
            Some (VStr (formatted_status_of (map_of (doc_fields m) ''Super Mode'')))"
    using normalize_device_status by blast
  from a b c show ?thesis by (intro conjI) (elim conjE, assumption)+
qed

theorem status_from_super_mode_witness:
  "normalize_device ncox_store ''now'' ncox_spec = Inr ncox_view
   \<and> map_of ncox_view ''status'' = Some (VStr ''enabled'')
   \<and> map_of ncox_view ''formatted_status'' = Some (VStr ''Super Mode: Enabled'')"
proof -
  have n: "normalize_device ncox_store ''now'' ncox_spec = Inr ncox_view"
    by code_simp
  have "normalize_device ncox_store ''now'' ncox_spec = Inr ncox_view \<longrightarrow>
        map_of ncox_view ''status'' = Some (VStr (status_of (map_of (doc_fields ncox_spec) ''Super Mode'')))
        \<and> map_of ncox_view ''formatted_status'' =
            Some (VStr (formatted_status_of (map_of (doc_fields ncox_spec) ''Super Mode'')))"
    using status_from_super_mode [of "map_of (doc_fields ncox_spec) ''Super Mode''" ncox_store "''now''" ncox_spec ncox_view]
    by (elim conjE)
  from this n have
    "map_of ncox_view ''status'' = Some (VStr (status_of (map_of (doc_fields ncox_spec) ''Super Mode'')))
        \<and> map_of ncox_view ''formatted_status'' =
            Some (VStr (formatted_status_of (map_of (doc_fields ncox_spec) ''Super Mode'')))"
    by (rule mp)
  moreover have "status_of (map_of (doc_fields ncox_spec) ''Super Mode'') = ''enabled''"
    by code_simp
  moreover have "formatted_status_of (map_of (doc_fields ncox_spec) ''Super Mode'') = ''Super Mode: Enabled''"
    by code_simp
  ultimately show ?thesis using n by simp
qed

section \<open>The sign of the performance value\<close>

lemma py_int_nonneg: "py_int g = Inr p \<Longrightarrow> \<forall>c\<in>set g. is_digit c \<Longrightarrow> 0 \<le> p"
  by (auto simp: py_int_def int_of_digits_nonneg split: if_splits)

lemma is_run_digits: "is_run s r \<Longrightarrow> \<forall>c\<in>set r. is_digit c"
  unfolding is_run_def by (elim exE conjE)

lemma max_list_nonneg: "\<forall>x\<in>set (x0 # xs). 0 \<le> x \<Longrightarrow> 0 \<le> max_list (x0 # xs)"
proof -
  assume a: "\<forall>x\<in>set (x0 # xs). 0 \<le> x"
  have "Max (set (x0 # xs)) \<in> set (x0 # xs)" by (rule Max_in) simp_all
  with a have "0 \<le> Max (set (x0 # xs))" by blast
  then show ?thesis by (simp only: max_list_Max)
qed

lemma extract_performance_string_nonneg:
  assumes "extract_performance (VStr s) = Inr (p, f)" shows "0 \<le> p"
proof (cases "search_up_to s")
  case (Some g)
  from search_up_to_Some [OF Some] obtain pre where "up_to_match s pre g" by (elim exE)
  from up_to_match_digits [OF this] have d: "\<forall>c\<in>set g. is_digit c" by (elim conjE)
  from assms Some have "py_int g = Inr p" by (simp split: sum.splits)
  from this d show ?thesis by (rule py_int_nonneg)
next
  case None
  note up = this
  show ?thesis
  proof (cases "search_tops s")
    case (Some g)
    from search_tops_Some [OF Some] obtain pre where "tops_match s pre g" by (elim exE)
    from tops_match_digits [OF this] have d: "\<forall>c\<in>set g. is_digit c" by (elim conjE)
    from assms up Some have "py_int g = Inr p" by (simp split: sum.splits)
    from this d show ?thesis by (rule py_int_nonneg)
  next
    case None
    show ?thesis
    proof (cases "findall_digits s")
      case Nil
      with assms up None show ?thesis by simp
    next
      case (Cons r rs)
      from assms up None Cons obtain ns where ns: "for_each py_int (r # rs) = Inr ns"
        and p: "p = max_list ns"
        by (simp del: for_each.simps split: sum.splits)
      from for_each_nth [OF ns] have "length ns = length (r # rs)" by (elim conjE)
      then obtain n0 ns' where c: "ns = n0 # ns'" by (cases ns) simp_all
      have "\<forall>y\<in>set ns. 0 \<le> y"
      proof
        fix y assume "y \<in> set ns"
        with for_each_results [OF ns] obtain x where x: "x \<in> set (r # rs)" "py_int x = Inr y"
          by blast
        from x(1) have "is_run s x" unfolding Cons [symmetric] by (simp only: findall_digits_is_run)
        then have "\<forall>c\<in>set x. is_digit c" by (rule is_run_digits)
        with x(2) show "0 \<le> y" by (rule py_int_nonneg)
      qed
      then have "0 \<le> max_list (n0 # ns')" unfolding c by (rule max_list_nonneg)
      then show ?thesis unfolding p c .
    qed
  qed
qed

lemma py_trunc_negative: "py_trunc q < 0 \<longleftrightarrow> q \<le> - 1"
proof (cases "0 \<le> q")
  case True
  then have "0 \<le> \<lfloor>q\<rfloor>" by simp
  with True show ?thesis by (simp add: py_trunc_def)
next
  case False
  have "\<lceil>q\<rceil> < 0 \<longleftrightarrow> q \<le> of_int 0 - 1" by (rule ceiling_less_iff)
  with False show ?thesis by (simp add: py_trunc_def)
qed

lemma extract_performance_sign:
  assumes "extract_performance v = Inr (p, f)" shows "p < 0 \<longleftrightarrow> is_negative_number v"
proof (cases v)
  case (VStr s)
  with assms have "0 \<le> p" using extract_performance_string_nonneg by simp
  with VStr show ?thesis by simp
next
  case (VFloat x)
  with assms show ?thesis by (cases x) (auto simp: py_trunc_negative)
qed (use assms in \<open>auto split: if_splits\<close>)

lemma extract_performance_default:
  assumes "extract_performance v = Inr (p, f)" "nothing_numeric v" shows "p = 0"
proof (cases v)
  case (VStr s)
  with assms(2) have "\<forall>c\<in>set s. \<not> is_digit c" by simp
  then have "extract_performance (VStr s) = Inr (0, Fallthrough)" by (rule rule_none)
  with assms(1) VStr show ?thesis by simp
next
  case (VFloat x)
  with assms show ?thesis by (cases x) auto
qed (use assms in auto)

lemma normalize_device_performance:
  assumes "normalize_device st seen m = Inr d"
  shows "\<exists>p f. extract_performance (get_or_empty (doc_fields m) ''AI Performance'') = Inr (p, f)
           \<and> map_of d ''performance'' = Some (VInt p)"
proof -
  have ai: "get_or_empty (AList.update ''formatted_status'' x (AList.update ''status'' y
              (AList.update ''applications'' z (project (to_dict m))))) ''AI Performance''
        = get_or_empty (doc_fields m) ''AI Performance''" for x y z
    by (simp add: get_or_empty_def update_conv' map_of_project projection_def to_dict_def)
  from assms obtain names where l: "linked_names st (doc_id m) = Inr names"
    by (cases "linked_names st (doc_id m)") (simp_all add: normalize_device_def)
  show ?thesis
  proof (cases "extract_performance (get_or_empty (doc_fields m) ''AI Performance'')")
    case (Inl e)
    with assms l show ?thesis
      by (simp add: normalize_device_def Let_def ai del: extract_performance.simps)
  next
    case (Inr pf)
    obtain p f where pf: "pf = (p, f)" by (cases pf)
    have "map_of d ''performance'' = Some (VInt p)"
      using assms l Inr pf
      by (cases f) (auto simp: normalize_device_def Let_def ai update_conv'
          simp del: extract_performance.simps)
    with Inr pf have "extract_performance (get_or_empty (doc_fields m) ''AI Performance'') = Inr (p, f)
           \<and> map_of d ''performance'' = Some (VInt p)"
      by simp
    then show ?thesis by (intro exI)
  qed
qed

text \<open>
  Claim C3, as amended. The performance of a view is an integer that the
  \<^verbatim>\<open>AI Performance\<close> field determines. An integer is passed through unchanged, a
  boolean gives 1 or 0, and a finite double is truncated towards zero. The performance is
  below zero exactly when the field is an integer below zero or a finite double that is at
  most -1; so a text never gives a negative value. It is 0 when the field is absent, a text
  without a digit, null, the double that is not a number, an object identifier, a list or a
  mapping.
\<close>

theorem performance_nonnegative_unless_negative_number:
  assumes "normalize_device st seen m = Inr d"
  shows "\<exists>p. map_of d ''performance'' = Some (VInt p)
           \<and> (p < 0 \<longleftrightarrow> is_negative_number (get_or_empty (doc_fields m) ''AI Performance''))
           \<and> (nothing_numeric (get_or_empty (doc_fields m) ''AI Performance'') \<longrightarrow> p = 0)
           \<and> (\<forall>i. map_of (doc_fields m) ''AI Performance'' = Some (VInt i) \<longrightarrow> p = i)
           \<and> (\<forall>b. map_of (doc_fields m) ''AI Performance'' = Some (VBool b) \<longrightarrow>
                 p = (if b then 1 else 0))
           \<and> (\<forall>q. map_of (doc_fields m) ''AI Performance'' = Some (VFloat (Finite q)) \<longrightarrow>
                 \<bar>of_int p\<bar> \<le> \<bar>q\<bar> \<and> \<bar>q\<bar> < \<bar>of_int p\<bar> + 1 \<and> 0 \<le> of_int p * q)"
proof -
  from normalize_device_performance [OF assms] obtain p f where
    e: "extract_performance (get_or_empty (doc_fields m) ''AI Performance'') = Inr (p, f)"
    and d: "map_of d ''performance'' = Some (VInt p)" by (elim exE conjE)
  have s: "p < 0 \<longleftrightarrow> is_negative_number (get_or_empty (doc_fields m) ''AI Performance'')"
    using e by (rule extract_performance_sign)
  have n: "nothing_numeric (get_or_empty (doc_fields m) ''AI Performance'') \<longrightarrow> p = 0"
    using extract_performance_default [OF e] by (rule impI)
  have i: "\<forall>i. map_of (doc_fields m) ''AI Performance'' = Some (VInt i) \<longrightarrow> p = i"
  proof (intro allI impI)
    fix i assume "map_of (doc_fields m) ''AI Performance'' = Some (VInt i)"
    then have "get_or_empty (doc_fields m) ''AI Performance'' = VInt i"
      by (simp add: get_or_empty_def)
    with e show "p = i" by simp
  qed
  have b: "\<forall>b. map_of (doc_fields m) ''AI Performance'' = Some (VBool b) \<longrightarrow> p = (if b then 1 else 0)"
  proof (intro allI impI)
    fix b assume "map_of (doc_fields m) ''AI Performance'' = Some (VBool b)"
    then have "get_or_empty (doc_fields m) ''AI Performance'' = VBool b"
      by (simp add: get_or_empty_def)
    with e show "p = (if b then 1 else 0)" by simp
  qed
  have q: "\<forall>q. map_of (doc_fields m) ''AI Performance'' = Some (VFloat (Finite q)) \<longrightarrow>
                 \<bar>of_int p\<bar> \<le> \<bar>q\<bar> \<and> \<bar>q\<bar> < \<bar>of_int p\<bar> + 1 \<and> 0 \<le> of_int p * q"
  proof (intro allI impI)
    fix q assume "map_of (doc_fields m) ''AI Performance'' = Some (VFloat (Finite q))"
    then have "get_or_empty (doc_fields m) ''AI Performance'' = VFloat (Finite q)"
      by (simp add: get_or_empty_def)
    with e have "p = py_trunc q" by simp
    then show "\<bar>of_int p\<bar> \<le> \<bar>q\<bar> \<and> \<bar>q\<bar> < \<bar>of_int p\<bar> + 1 \<and> 0 \<le> of_int p * q"
      using py_trunc_toward_zero [of q] by simp
  qed
  from d s n i b q show ?thesis by (intro exI [of _ p] conjI)
qed

theorem performance_nonnegative_unless_negative_number_witness:
  "normalize_device ncox_store ''now'' ncox_spec = Inr ncox_view
   \<and> \<not> is_negative_number (get_or_empty (doc_fields ncox_spec) ''AI Performance'')
   \<and> (\<exists>p. map_of ncox_view ''performance'' = Some (VInt p) \<and> \<not> p < 0)
   \<and> normalize_device negative_store ''2025-01-01T00:00:00'' negative_spec = Inr negative_view
   \<and> map_of (doc_fields negative_spec) ''AI Performance'' = Some (VInt (- 5))
   \<and> (\<exists>p. map_of negative_view ''performance'' = Some (VInt p) \<and> p = - 5)"
proof -
  have n: "normalize_device ncox_store ''now'' ncox_spec = Inr ncox_view"
    by code_simp
  have h: "\<not> is_negative_number (get_or_empty (doc_fields ncox_spec) ''AI Performance'')"
    by code_simp
  from performance_nonnegative_unless_negative_number [OF n] obtain p where
    p: "map_of ncox_view ''performance'' = Some (VInt p)"
    and s: "p < 0 \<longleftrightarrow> is_negative_number (get_or_empty (doc_fields ncox_spec) ''AI Performance'')"
    by (elim exE conjE)
  from s h have "\<not> p < 0" by simp
  with p have "map_of ncox_view ''performance'' = Some (VInt p) \<and> \<not> p < 0" by (rule conjI)
  then have a: "\<exists>p. map_of ncox_view ''performance'' = Some (VInt p) \<and> \<not> p < 0" by (rule exI)
  have n2: "normalize_device negative_store ''2025-01-01T00:00:00'' negative_spec = Inr negative_view"
    by code_simp
  have h2: "map_of (doc_fields negative_spec) ''AI Performance'' = Some (VInt (- 5))"
    by code_simp
  from performance_nonnegative_unless_negative_number [OF n2] obtain p' where
    p': "map_of negative_view ''performance'' = Some (VInt p')"
    and i: "\<forall>i. map_of (doc_fields negative_spec) ''AI Performance'' = Some (VInt i) \<longrightarrow> p' = i"
    by (elim exE conjE)
  from i have "map_of (doc_fields negative_spec) ''AI Performance'' = Some (VInt (- 5)) \<longrightarrow> p' = - 5"
    by (rule spec)
  from this h2 have "p' = - 5" by (rule mp)
  with p' have "map_of negative_view ''performance'' = Some (VInt p') \<and> p' = - 5" by (rule conjI)
  then have b: "\<exists>p. map_of negative_view ''performance'' = Some (VInt p) \<and> p = - 5" by (rule exI)
  from n h a n2 h2 b show ?thesis by (intro conjI)
qed

text \<open>The claim as written fails on a negative number: the view carries it as it is.\<close>

theorem negative_performance_counterexample:
  "get_mongodb_devices fixed_clock negative_store = Ok [negative_view]
   \<and> map_of negative_view ''performance'' = Some (VInt (- 5))
   \<and> \<not> (0::int) \<le> - 5"
  by code_simp

section \<open>The fields of a view\<close>

text \<open>
  Claim C2, at the failing input. With the performance text \<^verbatim>\<open>Up to 16 TOPS\<close> the
  pattern branch ends the loop turn, and the view has neither \<^verbatim>\<open>type\<close> nor
  \<^verbatim>\<open>model\<close> nor \<^verbatim>\<open>name\<close>; with the number 16 in the same field the view has
  all three.
\<close>

theorem continue_skips_type_model_name:
  "get_mongodb_devices fixed_clock ncox_store = Ok [ncox_view]
   \<and> map_of ncox_view ''performance'' = Some (VInt 16)
   \<and> map_of ncox_view ''type'' = None
   \<and> map_of ncox_view ''model'' = None
   \<and> map_of ncox_view ''name'' = None
   \<and> get_mongodb_devices fixed_clock numeric_store = Ok [numeric_view]
   \<and> map_of numeric_view ''type'' = Some (VStr ''ai_edge'')
   \<and> map_of numeric_view ''model'' = Some (VStr ''NCOX'')
   \<and> map_of numeric_view ''name'' = Some (VStr ''NCOX'')"
  by code_simp

section \<open>The end-to-end scenario\<close>

lemma scenario_link:
  "linked_names
     \<lparr>device_specs_collection = S,
      device_apps_collection =
        [\<lparr>doc_id = a,
          doc_fields = [(''device_id'', VStr h),
                        (''applications'',
                         VList [VDict (AList.update ''name'' (VStr ''Smart Surveillance'') extra)])]\<rparr>]\<rparr>
     h = Inr (VList [VStr ''Smart Surveillance''])"
  by (simp add: linked_names_def applications_of_def find_one_def filter_matches_def to_dict_def
      application_names_def update_conv')

lemma scenario_project:
  "project (to_dict \<lparr>doc_id = h,
      doc_fields = [(''deviceName'', VStr ''NCOX''), (''AI Performance'', VStr ''Up to 16 TOPS''),
                    (''Super Mode'', VStr ''Enable''), (''tag'', VStr ''Best Seller'')]\<rparr>)
   = [(''_id'', VOid h), (''deviceName'', VStr ''NCOX''), (''AI Performance'', VStr ''Up to 16 TOPS''),
      (''Super Mode'', VStr ''Enable''), (''tag'', VStr ''Best Seller'')]"
  by (simp add: project_def projection_def to_dict_def)

lemma scenario_performance: "extract_performance (VStr ''Up to 16 TOPS'') = Inr (16, Continue)"
  by code_simp

text \<open>
  Claim C9, as amended. For the store of the scenario, whatever the identifiers and the
  other keys of the application entry, the device list is one view with performance 16,
  status \<^verbatim>\<open>enabled\<close>, the applications \<^verbatim>\<open>["Smart Surveillance"]\<close> and the tag
  \<^verbatim>\<open>Best Seller\<close> as it is stored: this route does not change the tag.
\<close>

theorem list_devices_scenario:
  "get_mongodb_devices seen
     \<lparr>device_specs_collection =
        [\<lparr>doc_id = h,
          doc_fields = [(''deviceName'', VStr ''NCOX''), (''AI Performance'', VStr ''Up to 16 TOPS''),
                        (''Super Mode'', VStr ''Enable''), (''tag'', VStr ''Best Seller'')]\<rparr>],
      device_apps_collection =
        [\<lparr>doc_id = a,
          doc_fields = [(''device_id'', VStr h),
                        (''applications'',
                         VList [VDict (AList.update ''name'' (VStr ''Smart Surveillance'') extra)])]\<rparr>]\<rparr>
   = Ok [[(''_id'', VOid h), (''deviceName'', VStr ''NCOX''),
          (''AI Performance'', VStr ''Up to 16 TOPS''), (''Super Mode'', VStr ''Enable''),
          (''tag'', VStr ''Best Seller''), (''applications'', VList [VStr ''Smart Surveillance'']),
          (''status'', VStr ''enabled''), (''formatted_status'', VStr ''Super Mode: Enabled''),
          (''performance'', VInt 16)]]"
  unfolding get_mongodb_devices_def normalize_device_def
  by (simp add: scenario_link scenario_project scenario_performance get_or_empty_def
      status_of_def formatted_status_of_def del: extract_performance.simps)

text \<open>The claim as written fails: the tag of the view is not the lower-cased text.\<close>

theorem list_devices_tag_counterexample:
  "get_mongodb_devices fixed_clock ncox_store = Ok [ncox_view]
   \<and> map_of ncox_view ''tag'' = Some (VStr ''Best Seller'')
   \<and> map_of ncox_view ''tag'' \<noteq> Some (VStr ''best seller'')"
  by code_simp

section \<open>One device and its applications\<close>

lemma find_one_None_iff:
  "find_one coll k q = None \<longleftrightarrow> (\<forall>m\<in>set coll. \<not> filter_matches k q m)"
  by (auto simp: find_one_def find_None_iff)

lemma find_one_by_id_None_iff:
  "find_one_by_id coll oid = None \<longleftrightarrow> (\<forall>m\<in>set coll. doc_id m \<noteq> oid)"
  by (auto simp: find_one_by_id_def find_None_iff)

lemma unknown_identifier:
  assumes "\<forall>m\<in>set (device_specs_collection st).
        \<not> filter_matches ''device_id'' (VStr i) m \<and> ObjectId i \<noteq> Inr (doc_id m)"
  shows "get_device_specifications st i = NotFound"
proof -
  from assms have "\<forall>m\<in>set (device_specs_collection st). \<not> filter_matches ''device_id'' (VStr i) m"
    by simp
  then have f: "find_one (device_specs_collection st) ''device_id'' (VStr i) = None"
    by (simp only: find_one_None_iff)
  show ?thesis
  proof (cases "ObjectId i")
    case (Inl e)
    with f show ?thesis by (simp add: get_device_specifications_def)
  next
    case (Inr oid)
    with assms have "\<forall>m\<in>set (device_specs_collection st). doc_id m \<noteq> oid" by auto
    then have "find_one_by_id (device_specs_collection st) oid = None"
      by (simp only: find_one_by_id_None_iff)
    with f Inr show ?thesis by (simp add: get_device_specifications_def)
  qed
qed

text \<open>
  Claim C6. When no specification document matches the identifier, neither by its
  \<^verbatim>\<open>device_id\<close> field nor by its object identifier, the route answers with the 404
  response, and it never answers with the error response of the outer handler.
\<close>

theorem unknown_identifier_not_found:
  "(\<forall>m\<in>set (device_specs_collection st).
        \<not> filter_matches ''device_id'' (VStr i) m \<and> ObjectId i \<noteq> Inr (doc_id m))
     \<longrightarrow> get_device_specifications st i = NotFound \<and> (\<forall>e. get_device_specifications st i \<noteq> Failed e)"
proof
  assume "\<forall>m\<in>set (device_specs_collection st).
        \<not> filter_matches ''device_id'' (VStr i) m \<and> ObjectId i \<noteq> Inr (doc_id m)"
  then have "get_device_specifications st i = NotFound" by (rule unknown_identifier)
  then show "get_device_specifications st i = NotFound \<and> (\<forall>e. get_device_specifications st i \<noteq> Failed e)"
    by simp
qed

theorem unknown_identifier_not_found_witness:
  "device_specs_collection two_store = [legacy_spec, ncox_spec]
   \<and> \<not> filter_matches ''device_id'' (VStr ''unknown-device'') legacy_spec
   \<and> \<not> filter_matches ''device_id'' (VStr ''unknown-device'') ncox_spec
   \<and> ObjectId ''unknown-device'' = Inl InvalidId
   \<and> get_device_specifications two_store ''unknown-device'' = NotFound
   \<and> \<not> filter_matches ''device_id'' (VStr ''67f4044ea91332165a91a8aa'') legacy_spec
   \<and> \<not> filter_matches ''device_id'' (VStr ''67f4044ea91332165a91a8aa'') ncox_spec
   \<and> ObjectId ''67f4044ea91332165a91a8aa'' = Inr ''67f4044ea91332165a91a8aa''
   \<and> ''67f4044ea91332165a91a8aa'' \<noteq> doc_id legacy_spec
   \<and> ''67f4044ea91332165a91a8aa'' \<noteq> doc_id ncox_spec
   \<and> get_device_specifications two_store ''67f4044ea91332165a91a8aa'' = NotFound"
proof -
  have s: "device_specs_collection two_store = [legacy_spec, ncox_spec]"
    by (simp add: two_store_def)
  have a: "\<not> filter_matches ''device_id'' (VStr ''unknown-device'') legacy_spec
   \<and> \<not> filter_matches ''device_id'' (VStr ''unknown-device'') ncox_spec
   \<and> ObjectId ''unknown-device'' = Inl InvalidId"
    by code_simp
  have b: "\<not> filter_matches ''device_id'' (VStr ''67f4044ea91332165a91a8aa'') legacy_spec
   \<and> \<not> filter_matches ''device_id'' (VStr ''67f4044ea91332165a91a8aa'') ncox_spec
   \<and> ObjectId ''67f4044ea91332165a91a8aa'' = Inr ''67f4044ea91332165a91a8aa''
   \<and> ''67f4044ea91332165a91a8aa'' \<noteq> doc_id legacy_spec
   \<and> ''67f4044ea91332165a91a8aa'' \<noteq> doc_id ncox_spec"
    by code_simp
  from a s have h1: "\<forall>m\<in>set (device_specs_collection two_store).
        \<not> filter_matches ''device_id'' (VStr ''unknown-device'') m
        \<and> ObjectId ''unknown-device'' \<noteq> Inr (doc_id m)"
    by simp
  from b s have h2: "\<forall>m\<in>set (device_specs_collection two_store).
        \<not> filter_matches ''device_id'' (VStr ''67f4044ea91332165a91a8aa'') m
        \<and> ObjectId ''67f4044ea91332165a91a8aa'' \<noteq> Inr (doc_id m)"
    by simp
  from unknown_identifier_not_found [of two_store "''unknown-device''"] h1
  have c1: "get_device_specifications two_store ''unknown-device'' = NotFound" by blast
  from unknown_identifier_not_found [of two_store "''67f4044ea91332165a91a8aa''"] h2
  have c2: "get_device_specifications two_store ''67f4044ea91332165a91a8aa'' = NotFound" by blast
  from s a c1 b c2 show ?thesis by (intro conjI) (elim conjE, assumption)+
qed

lemma default_applications_by_name:
  assumes "applications_of (find_one (device_apps_collection st) ''device_id'' (VStr i)) = None"
    and "ObjectId i = Inr oid"
    and "ObjectId oid = Inr oid"
    and "applications_of (find_one (device_apps_collection st) ''device_id'' (VStr oid)) = None"
    and "find_one_by_id (device_specs_collection st) oid = Some d"
    and "get_or_empty d ''deviceName'' = VStr n"
  shows "get_device_applications st i = Ok (if contains ''Server'' n then server_apps else edge_apps)"
  using assms by (simp add: get_device_applications_def default_applications_def)

lemma unresolved_device_empty:
  assumes "applications_of (find_one (device_apps_collection st) ''device_id'' (VStr i)) = None"
    and "ObjectId i = Inr oid"
    and "find_one_by_id (device_specs_collection st) oid = None"
  shows "get_device_applications st i = Ok (VList [])"
  using assms by (simp add: get_device_applications_def default_applications_def)

lemma malformed_identifier_fails:
  assumes "applications_of (find_one (device_apps_collection st) ''device_id'' (VStr i)) = None"
    and "ObjectId i = Inl e"
  shows "get_device_applications st i = Failed e"
  using assms by (simp add: get_device_applications_def default_applications_def)

text \<open>
  Claim C7, at the failing input. For an identifier that is not the text of an object
  identifier and has no link document, the second \<^verbatim>\<open>ObjectId(device_id)\<close> raises
  outside the inner \<^verbatim>\<open>try\<close> and the route answers with the error response, not
  with the empty list; a well-formed identifier of no device gets the empty list, and the
  specification route answers the same malformed identifier with 404.
\<close>

theorem malformed_identifier_fails_applications:
  "get_device_applications ncox_store ''unknown-device'' = Failed InvalidId
   \<and> get_device_applications ncox_store ''67f4044ea91332165a91a8aa'' = Ok (VList [])
   \<and> get_device_specifications ncox_store ''unknown-device'' = NotFound"
  by code_simp

lemma clearjunk_entries: "(k, v) \<in> set (AList.clearjunk d) \<longleftrightarrow> map_of d k = Some v"
  using map_of_eq_Some_iff [OF distinct_clearjunk, of d k v] by (simp add: map_of_clearjunk)

lemma ball_pairs: "(\<forall>kv\<in>S. P (fst kv) (snd kv)) \<longleftrightarrow> (\<forall>k v. (k, v) \<in> S \<longrightarrow> P k v)"
  by auto

lemma fields_jsonable_iff:
  "fields_jsonable d \<longleftrightarrow> (\<forall>k v. k \<noteq> ''_id'' \<and> map_of d k = Some v \<longrightarrow> jsonable v)"
proof -
  have "fields_jsonable d
      \<longleftrightarrow> (\<forall>kv\<in>set (AList.clearjunk d). fst kv = ''_id'' \<or> jsonable (snd kv))"
    by (simp add: fields_jsonable_def list_all_iff)
  also have "\<dots> \<longleftrightarrow> (\<forall>k v. (k, v) \<in> set (AList.clearjunk d) \<longrightarrow> k = ''_id'' \<or> jsonable v)"
    by (rule ball_pairs [of _ "\<lambda>k v. k = ''_id'' \<or> jsonable v"])
  also have "\<dots> \<longleftrightarrow> (\<forall>k v. k \<noteq> ''_id'' \<and> map_of d k = Some v \<longrightarrow> jsonable v)"
    unfolding clearjunk_entries by blast
  finally show ?thesis .
qed

lemma jsonify_iff: "jsonify d = Inr d \<longleftrightarrow> (\<forall>k v. map_of d k = Some v \<longrightarrow> jsonable v)"
proof -
  note m = clearjunk_entries
  have "list_all jsonable (map snd (AList.clearjunk d))
      \<longleftrightarrow> (\<forall>kv\<in>set (AList.clearjunk d). jsonable (snd kv))"
    by (simp add: list_all_iff)
  also have "\<dots> \<longleftrightarrow> (\<forall>k v. (k, v) \<in> set (AList.clearjunk d) \<longrightarrow> jsonable v)"
    by auto
  also have "\<dots> \<longleftrightarrow> (\<forall>k v. map_of d k = Some v \<longrightarrow> jsonable v)"
    by (simp only: m)
  finally show ?thesis by (simp add: jsonify_def)
qed

lemma jsonify_deleted:
  assumes "fields_jsonable d"
  shows "jsonify (AList.delete ''_id'' d) = Inr (AList.delete ''_id'' d)"
  unfolding jsonify_iff using assms by (simp add: fields_jsonable_iff delete_conv')

lemma jsonify_found_by_id:
  assumes "fields_jsonable d"
  shows "jsonify (if has_key ''description_summary'' (AList.update ''_id'' (VStr oid) d)
                  then AList.update ''_id'' (VStr oid) d
                  else AList.update ''description_summary'' VNone (AList.update ''_id'' (VStr oid) d))
       = Inr (if has_key ''description_summary'' (AList.update ''_id'' (VStr oid) d)
              then AList.update ''_id'' (VStr oid) d
              else AList.update ''description_summary'' VNone (AList.update ''_id'' (VStr oid) d))"
  unfolding jsonify_iff using assms
  by (auto simp: fields_jsonable_iff update_conv' split: if_splits)

text \<open>
  Claim C10, as amended. Of a document whose fields other than \<^verbatim>\<open>_id\<close> can be written
  as JSON: found by its \<^verbatim>\<open>device_id\<close> field it is returned without \<^verbatim>\<open>_id\<close> and
  with \<^verbatim>\<open>description_summary\<close> only if it is stored; found by its object identifier it is
  returned with \<^verbatim>\<open>_id\<close> as a string and always with \<^verbatim>\<open>description_summary\<close>, null
  when it is not stored, all other fields unchanged.
\<close>

theorem two_lookup_paths:
  "(find_one (device_specs_collection st) ''device_id'' (VStr i) = Some d \<and> fields_jsonable d \<longrightarrow>
      get_device_specifications st i = Ok (AList.delete ''_id'' d)
      \<and> map_of (AList.delete ''_id'' d) ''_id'' = None
      \<and> map_of (AList.delete ''_id'' d) ''description_summary'' = map_of d ''description_summary'')
   \<and> (find_one (device_specs_collection st) ''device_id'' (VStr j) = None
      \<and> ObjectId j = Inr oid
      \<and> find_one_by_id (device_specs_collection st) oid = Some d' \<and> fields_jsonable d' \<longrightarrow>
      (\<exists>r. get_device_specifications st j = Ok r
         \<and> map_of r ''_id'' = Some (VStr oid)
         \<and> map_of r ''description_summary'' =
             (case map_of d' ''description_summary'' of Some v \<Rightarrow> Some v | None \<Rightarrow> Some VNone)
         \<and> (\<forall>k. k \<noteq> ''_id'' \<and> k \<noteq> ''description_summary'' \<longrightarrow> map_of r k = map_of d' k)))"
proof (intro conjI impI)
  assume "find_one (device_specs_collection st) ''device_id'' (VStr i) = Some d \<and> fields_jsonable d"
  then show "get_device_specifications st i = Ok (AList.delete ''_id'' d)"
    by (simp add: get_device_specifications_def jsonify_deleted)
next
  show "map_of (AList.delete ''_id'' d) ''_id'' = None"
    by (simp add: delete_conv')
next
  show "map_of (AList.delete ''_id'' d) ''description_summary'' = map_of d ''description_summary''"
    by (simp add: delete_conv')
next
  assume a: "find_one (device_specs_collection st) ''device_id'' (VStr j) = None
      \<and> ObjectId j = Inr oid
      \<and> find_one_by_id (device_specs_collection st) oid = Some d' \<and> fields_jsonable d'"
  define r0 where "r0 = AList.update ''_id'' (VStr oid) d'"
  define r where "r = (if has_key ''description_summary'' r0 then r0
                       else AList.update ''description_summary'' VNone r0)"
  from a have "fields_jsonable d'" by simp
  then have "jsonify r = Inr r" unfolding r_def r0_def by (rule jsonify_found_by_id)
  moreover have "get_device_specifications st j = (case jsonify r of Inl e \<Rightarrow> NotFound | Inr body \<Rightarrow> Ok body)"
    using a by (simp add: get_device_specifications_def r_def r0_def Let_def)
  ultimately have g: "get_device_specifications st j = Ok r" by simp
  have i: "map_of r ''_id'' = Some (VStr oid)"
    by (simp add: r_def r0_def update_conv')
  have s: "map_of r ''description_summary'' =
             (case map_of d' ''description_summary'' of Some v \<Rightarrow> Some v | None \<Rightarrow> Some VNone)"
    by (simp add: r_def r0_def update_conv' has_key_def split: option.splits)
  have k: "\<forall>k. k \<noteq> ''_id'' \<and> k \<noteq> ''description_summary'' \<longrightarrow> map_of r k = map_of d' k"
    by (simp add: r_def r0_def update_conv')
  from g i s k show "\<exists>r. get_device_specifications st j = Ok r
         \<and> map_of r ''_id'' = Some (VStr oid)
         \<and> map_of r ''description_summary'' =
             (case map_of d' ''description_summary'' of Some v \<Rightarrow> Some v | None \<Rightarrow> Some VNone)
         \<and> (\<forall>k. k \<noteq> ''_id'' \<and> k \<noteq> ''description_summary'' \<longrightarrow> map_of r k = map_of d' k)"
    by (intro exI [of _ r] conjI)
qed

theorem two_lookup_paths_witness:
  "find_one (device_specs_collection two_store) ''device_id'' (VStr ''device-ncon'')
     = Some (to_dict legacy_spec)
   \<and> fields_jsonable (to_dict legacy_spec)
   \<and> get_device_specifications two_store ''device-ncon''
     = Ok [(''device_id'', VStr ''device-ncon''), (''deviceName'', VStr ''NCON'')]
   \<and> find_one (device_specs_collection two_store) ''device_id'' (VStr ncox_id) = None
   \<and> ObjectId ncox_id = Inr ncox_id
   \<and> find_one_by_id (device_specs_collection two_store) ncox_id = Some (to_dict ncox_spec)
   \<and> fields_jsonable (to_dict ncox_spec)
   \<and> (\<exists>r. get_device_specifications two_store ncox_id = Ok r
         \<and> map_of r ''_id'' = Some (VStr ncox_id)
         \<and> map_of r ''description_summary'' = Some VNone)"
proof -
  have f1: "find_one (device_specs_collection two_store) ''device_id'' (VStr ''device-ncon'')
              = Some (to_dict legacy_spec) \<and> fields_jsonable (to_dict legacy_spec)"
    by code_simp
  have f2: "find_one (device_specs_collection two_store) ''device_id'' (VStr ncox_id) = None
      \<and> ObjectId ncox_id = Inr ncox_id
      \<and> find_one_by_id (device_specs_collection two_store) ncox_id = Some (to_dict ncox_spec)
      \<and> fields_jsonable (to_dict ncox_spec)"
    by code_simp
  note t = two_lookup_paths [of two_store "''device-ncon''" "to_dict legacy_spec" ncox_id ncox_id
      "to_dict ncox_spec"]
  from t have "find_one (device_specs_collection two_store) ''device_id'' (VStr ''device-ncon'')
              = Some (to_dict legacy_spec) \<and> fields_jsonable (to_dict legacy_spec) \<longrightarrow>
      get_device_specifications two_store ''device-ncon'' = Ok (AList.delete ''_id'' (to_dict legacy_spec))
      \<and> map_of (AList.delete ''_id'' (to_dict legacy_spec)) ''_id'' = None
      \<and> map_of (AList.delete ''_id'' (to_dict legacy_spec)) ''description_summary''
          = map_of (to_dict legacy_spec) ''description_summary''"
    by (elim conjE)
  from this f1 have "get_device_specifications two_store ''device-ncon''
        = Ok (AList.delete ''_id'' (to_dict legacy_spec))
      \<and> map_of (AList.delete ''_id'' (to_dict legacy_spec)) ''_id'' = None
      \<and> map_of (AList.delete ''_id'' (to_dict legacy_spec)) ''description_summary''
          = map_of (to_dict legacy_spec) ''description_summary''"
    by (rule mp)
  then have "get_device_specifications two_store ''device-ncon''
      = Ok (AList.delete ''_id'' (to_dict legacy_spec))" by (elim conjE)
  moreover have "AList.delete ''_id'' (to_dict legacy_spec)
      = [(''device_id'', VStr ''device-ncon''), (''deviceName'', VStr ''NCON'')]"
    by code_simp
  ultimately have c1: "get_device_specifications two_store ''device-ncon''
     = Ok [(''device_id'', VStr ''device-ncon''), (''deviceName'', VStr ''NCON'')]" by (simp only:)
  from t have "find_one (device_specs_collection two_store) ''device_id'' (VStr ncox_id) = None
      \<and> ObjectId ncox_id = Inr ncox_id
      \<and> find_one_by_id (device_specs_collection two_store) ncox_id = Some (to_dict ncox_spec)
      \<and> fields_jsonable (to_dict ncox_spec) \<longrightarrow>
      (\<exists>r. get_device_specifications two_store ncox_id = Ok r
         \<and> map_of r ''_id'' = Some (VStr ncox_id)
         \<and> map_of r ''description_summary'' =
             (case map_of (to_dict ncox_spec) ''description_summary'' of Some v \<Rightarrow> Some v | None \<Rightarrow> Some VNone)
         \<and> (\<forall>k. k \<noteq> ''_id'' \<and> k \<noteq> ''description_summary'' \<longrightarrow> map_of r k = map_of (to_dict ncox_spec) k))"
    by (elim conjE)
  from this f2 have "\<exists>r. get_device_specifications two_store ncox_id = Ok r
         \<and> map_of r ''_id'' = Some (VStr ncox_id)
         \<and> map_of r ''description_summary'' =
             (case map_of (to_dict ncox_spec) ''description_summary'' of Some v \<Rightarrow> Some v | None \<Rightarrow> Some VNone)
         \<and> (\<forall>k. k \<noteq> ''_id'' \<and> k \<noteq> ''description_summary'' \<longrightarrow> map_of r k = map_of (to_dict ncox_spec) k)"
    by (rule mp)
  then obtain r where r: "get_device_specifications two_store ncox_id = Ok r"
     "map_of r ''_id'' = Some (VStr ncox_id)"
     "map_of r ''description_summary'' =
        (case map_of (to_dict ncox_spec) ''description_summary'' of Some v \<Rightarrow> Some v | None \<Rightarrow> Some VNone)"
    by (elim exE conjE)
  have "map_of (to_dict ncox_spec) ''description_summary'' = None" by code_simp
  with r(3) have "map_of r ''description_summary'' = Some VNone" by simp
  with r(1,2) have c2: "\<exists>r. get_device_specifications two_store ncox_id = Ok r
         \<and> map_of r ''_id'' = Some (VStr ncox_id)
         \<and> map_of r ''description_summary'' = Some VNone"
    by (intro exI [of _ r] conjI)
  from f1 c1 f2 c2 show ?thesis by (intro conjI) (elim conjE, assumption)+
qed

text \<open>
  The claim as written fails on a document with a field that cannot be written as JSON,
  here a reference to another document: found by its \<^verbatim>\<open>device_id\<close> field it ends in the
  error response, found by its object identifier in the 404 response.
\<close>

theorem unserialisable_document_counterexample:
  "find_one (device_specs_collection ref_store) ''device_id'' (VStr ''device-ref'')
     = Some (to_dict ref_legacy_spec)
   \<and> get_device_specifications ref_store ''device-ref'' = Failed TypeError
   \<and> find_one (device_specs_collection ref_store) ''device_id'' (VStr ref_id) = None
   \<and> ObjectId ref_id = Inr ref_id
   \<and> find_one_by_id (device_specs_collection ref_store) ref_id = Some (to_dict ref_spec)
   \<and> get_device_specifications ref_store ref_id = NotFound"
  by code_simp

section \<open>Tags\<close>

lemma py_lower_char_idem: "py_lower_char (py_lower_char c) = py_lower_char c"
  by (auto simp: py_lower_char_def Let_def)

lemma py_lower_idem: "py_lower (py_lower s) = py_lower s"
  by (simp add: py_lower_def py_lower_char_idem)

lemma py_lower_Nil_iff: "py_lower s = [] \<longleftrightarrow> s = []"
  by (simp add: py_lower_def)

lemma normalize_tag_result:
  assumes "normalize_tag d = Inr d'"
  shows "(\<forall>s. source_tag d = Some (VStr s) \<longrightarrow> map_of d' ''tag'' = Some (VStr (py_lower s)))
       \<and> (source_tag d = None \<or> source_tag d = Some VNone \<longrightarrow> map_of d' ''tag'' = Some VNone)
       \<and> (source_tag d = None \<or> source_tag d = Some VNone \<or> (\<exists>s. source_tag d = Some (VStr s)))
       \<and> (map_of d ''tag'' = None \<longrightarrow> map_of d' ''Tag'' = None)"
proof (cases "map_of d ''tag''")
  case (Some v)
  then have st: "source_tag d = Some v" by (simp add: source_tag_def)
  show ?thesis
    using assms Some st
    by (cases v) (auto simp: normalize_tag_def update_conv' split: if_splits)
next
  case None
  show ?thesis
  proof (cases "map_of d ''Tag''")
    case None2: None
    with None have st: "source_tag d = None" by (simp add: source_tag_def)
    show ?thesis using assms None None2 st by (auto simp: normalize_tag_def update_conv')
  next
    case (Some v)
    with None have st: "source_tag d = Some v" by (simp add: source_tag_def)
    show ?thesis
      using assms None Some st
      by (cases v) (auto simp: normalize_tag_def update_conv' delete_conv' split: if_splits)
  qed
qed

lemma with_tags_device_tag:
  assumes "with_tags_device st m = Inr d"
  shows "\<exists>d0. normalize_tag (AList.update ''_id'' (VStr (doc_id m)) (to_dict m)) = Inr d0
           \<and> map_of d ''tag'' = map_of d0 ''tag'' \<and> map_of d ''Tag'' = map_of d0 ''Tag''"
  using assms
  by (auto simp: with_tags_device_def Let_def update_conv' has_key_def split: sum.splits option.splits if_splits)

lemma source_tag_device:
  "source_tag (AList.update ''_id'' v (to_dict m)) = source_tag (doc_fields m)"
  by (simp add: source_tag_def update_conv' to_dict_def split: option.splits)

lemma device_tag_key:
  "map_of (AList.update ''_id'' v (to_dict m)) ''tag'' = map_of (doc_fields m) ''tag''"
  by (simp add: update_conv' to_dict_def)

text \<open>
  Claim C4, as amended. In every view of the tagged list the tag is read from the
  lower-case key, else from the upper-case key, which is then dropped. A string is
  lower-cased, the empty string staying the empty string; a missing or null tag gives null.
  So every tag that is not null is the lower-casing of the stored string, unchanged by a
  second lower-casing, and empty only when the stored string is empty.
\<close>

theorem tag_normalization:
  assumes "with_tags_device st m = Inr d"
  shows "(\<forall>s. source_tag (doc_fields m) = Some (VStr s) \<longrightarrow> map_of d ''tag'' = Some (VStr (py_lower s)))
       \<and> (source_tag (doc_fields m) = None \<or> source_tag (doc_fields m) = Some VNone \<longrightarrow>
            map_of d ''tag'' = Some VNone)
       \<and> (map_of (doc_fields m) ''tag'' = None \<longrightarrow> map_of d ''Tag'' = None)
       \<and> (\<forall>t. map_of d ''tag'' = Some t \<and> t \<noteq> VNone \<longrightarrow>
            (\<exists>s0. source_tag (doc_fields m) = Some (VStr s0) \<and> t = VStr (py_lower s0)
                \<and> py_lower (py_lower s0) = py_lower s0 \<and> (py_lower s0 = [] \<longleftrightarrow> s0 = [])))"
proof -
  from with_tags_device_tag [OF assms] obtain d0 where
    n: "normalize_tag (AList.update ''_id'' (VStr (doc_id m)) (to_dict m)) = Inr d0"
    and t: "map_of d ''tag'' = map_of d0 ''tag''" and u: "map_of d ''Tag'' = map_of d0 ''Tag''"
    by blast
  note r = normalize_tag_result [OF n, unfolded source_tag_device device_tag_key]
  from r have a: "\<forall>s. source_tag (doc_fields m) = Some (VStr s) \<longrightarrow> map_of d ''tag'' = Some (VStr (py_lower s))"
    using t by simp
  from r have b: "source_tag (doc_fields m) = None \<or> source_tag (doc_fields m) = Some VNone \<longrightarrow>
            map_of d ''tag'' = Some VNone"
    using t by simp
  from r have c: "map_of (doc_fields m) ''tag'' = None \<longrightarrow> map_of d ''Tag'' = None"
    using u by simp
  from r have cases: "source_tag (doc_fields m) = None \<or> source_tag (doc_fields m) = Some VNone
      \<or> (\<exists>s. source_tag (doc_fields m) = Some (VStr s))" by simp
  have e: "\<forall>t. map_of d ''tag'' = Some t \<and> t \<noteq> VNone \<longrightarrow>
            (\<exists>s0. source_tag (doc_fields m) = Some (VStr s0) \<and> t = VStr (py_lower s0)
                \<and> py_lower (py_lower s0) = py_lower s0 \<and> (py_lower s0 = [] \<longleftrightarrow> s0 = []))"
  proof (intro allI impI)
    fix t assume h: "map_of d ''tag'' = Some t \<and> t \<noteq> VNone"
    with b have "\<not> (source_tag (doc_fields m) = None \<or> source_tag (doc_fields m) = Some VNone)" by auto
    with cases obtain s0 where s0: "source_tag (doc_fields m) = Some (VStr s0)" by blast
    with a h have "t = VStr (py_lower s0)" by simp
    with s0 show "\<exists>s0. source_tag (doc_fields m) = Some (VStr s0) \<and> t = VStr (py_lower s0)
                \<and> py_lower (py_lower s0) = py_lower s0 \<and> (py_lower s0 = [] \<longleftrightarrow> s0 = [])"
      using py_lower_idem py_lower_Nil_iff by blast
  qed
  from a b c e show ?thesis by blast
qed

theorem tag_normalization_witness:
  "with_tags_device ncox_store upper_tag_spec = Inr upper_tag_view
   \<and> source_tag (doc_fields upper_tag_spec) = Some (VStr ''Best Seller'')
   \<and> map_of upper_tag_view ''tag'' = Some (VStr ''best seller'')
   \<and> map_of upper_tag_view ''Tag'' = None"
proof -
  have w: "with_tags_device ncox_store upper_tag_spec = Inr upper_tag_view"
    by code_simp
  have s: "source_tag (doc_fields upper_tag_spec) = Some (VStr ''Best Seller'')"
    by code_simp
  have k: "map_of (doc_fields upper_tag_spec) ''tag'' = None"
    by code_simp
  have l: "py_lower ''Best Seller'' = ''best seller''"
    by code_simp
  note t = tag_normalization [OF w]
  from t s have "map_of upper_tag_view ''tag'' = Some (VStr (py_lower ''Best Seller''))" by blast
  with l have a: "map_of upper_tag_view ''tag'' = Some (VStr ''best seller'')" by simp
  from t k have b: "map_of upper_tag_view ''Tag'' = None" by blast
  from w s a b show ?thesis by (intro conjI)
qed

text \<open>The claim as written fails on the empty string: the tag of the view is the empty
  string, not null.\<close>

theorem empty_tag_counterexample:
  "get_devices_with_tags empty_tag_store = Ok [empty_tag_view]
   \<and> map_of (doc_fields empty_tag_spec) ''tag'' = Some (VStr [])
   \<and> map_of empty_tag_view ''tag'' = Some (VStr [])
   \<and> map_of empty_tag_view ''tag'' \<noteq> Some VNone"
  by code_simp

section \<open>Fields that are missing or cannot be read\<close>

lemma subscript_name_ok: "(\<exists>y. subscript_name x = Inr y) \<longleftrightarrow> has_name x"
  by (cases x) (auto simp: has_key_def split: option.splits)

lemma for_each_subscript_strings:
  "(\<exists>ys. for_each subscript_name (map (\<lambda>x. VStr (f x)) xs) = Inr ys) \<longleftrightarrow> xs = []"
  by (cases xs) auto

lemma application_names_ok: "(\<exists>r. application_names v = Inr r) \<longleftrightarrow> names_readable v"
proof (cases v)
  case (VList xs)
  have "(\<exists>ys. for_each subscript_name xs = Inr ys) \<longleftrightarrow> (\<forall>x\<in>set xs. has_name x)"
    by (simp add: for_each_Inr_iff subscript_name_ok)
  then show ?thesis using VList
    by (cases "for_each subscript_name xs") (auto simp: application_names_def)
next
  case (VDict m)
  have "(\<exists>ys. for_each subscript_name (map (\<lambda>kv. VStr (fst kv)) m) = Inr ys) \<longleftrightarrow> m = []"
    by (rule for_each_subscript_strings)
  then show ?thesis using VDict
    by (cases "for_each subscript_name (map (\<lambda>kv. VStr (fst kv)) m)") (auto simp: application_names_def)
next
  case (VStr s)
  have "(\<exists>ys. for_each subscript_name (map (\<lambda>c. VStr [c]) s) = Inr ys) \<longleftrightarrow> s = []"
    by (rule for_each_subscript_strings)
  then show ?thesis using VStr
    by (cases "for_each subscript_name (map (\<lambda>c. VStr [c]) s)") (auto simp: application_names_def)
qed (simp_all add: application_names_def)

lemma linked_names_ok: "(\<exists>r. linked_names st h = Inr r) \<longleftrightarrow> link_readable st h"
  by (simp add: linked_names_def link_readable_def application_names_ok split: option.splits)

lemma convertible_ok:
  assumes "convertible v" shows "\<exists>r. extract_performance v = Inr r"
proof (cases v)
  case (VStr s)
  with assms have k: "\<forall>g. is_run s g \<longrightarrow> length g \<le> max_str_digits" by simp
  show ?thesis
  proof (cases "search_up_to s")
    case (Some g)
    from search_up_to_Some [OF Some] obtain pre where "up_to_match s pre g" by (elim exE)
    from up_to_match_digits [OF this] obtain a b where n: "g \<noteq> []" and d: "\<forall>c\<in>set g. is_digit c"
      and e: "s = a @ g @ b" by (elim exE conjE)
    from k e d n have "length g \<le> max_str_digits" by (rule block_short)
    then have "py_int g = Inr (decimal_value g)" by (rule py_int_short)
    with Some VStr show ?thesis by simp
  next
    case None
    note up = this
    show ?thesis
    proof (cases "search_tops s")
      case (Some g)
      from search_tops_Some [OF Some] obtain pre where "tops_match s pre g" by (elim exE)
      from tops_match_digits [OF this] obtain a b where n: "g \<noteq> []" and d: "\<forall>c\<in>set g. is_digit c"
        and e: "s = a @ g @ b" by (elim exE conjE)
      from k e d n have "length g \<le> max_str_digits" by (rule block_short)
      then have "py_int g = Inr (decimal_value g)" by (rule py_int_short)
      with up Some VStr show ?thesis by simp
    next
      case None
      show ?thesis
      proof (cases "findall_digits s")
        case Nil
        with up None VStr show ?thesis by simp
      next
        case (Cons r rs)
        have "\<forall>x\<in>set (r # rs). length x \<le> max_str_digits"
          unfolding Cons [symmetric] using k by (simp add: findall_digits_is_run)
        then have "for_each py_int (r # rs) = Inr (map decimal_value (r # rs))"
          by (rule for_each_py_int)
        with up None Cons VStr show ?thesis by (simp del: for_each.simps)
      qed
    qed
  qed
next
  case (VFloat x)
  with assms show ?thesis by (cases x) simp_all
qed simp_all

lemma normalize_tag_ok: "(\<exists>d'. normalize_tag d = Inr d') \<longleftrightarrow> tag_readable (source_tag d)"
proof (cases "source_tag d")
  case None
  then show ?thesis by (auto simp: normalize_tag_def source_tag_def split: option.splits)
next
  case (Some v)
  then show ?thesis
    by (cases v) (auto simp: normalize_tag_def source_tag_def split: option.splits)
qed

lemma normalize_device_ok:
  "(\<exists>d. normalize_device st seen m = Inr d) \<longleftrightarrow>
     link_readable st (doc_id m)
     \<and> (\<exists>r. extract_performance (get_or_empty (doc_fields m) ''AI Performance'') = Inr r)"
proof -
  have ai: "get_or_empty (AList.update ''formatted_status'' x (AList.update ''status'' y
              (AList.update ''applications'' z (project (to_dict m))))) ''AI Performance''
        = get_or_empty (doc_fields m) ''AI Performance''" for x y z
    by (simp add: get_or_empty_def update_conv' map_of_project projection_def to_dict_def)
  show ?thesis
  proof (cases "linked_names st (doc_id m)")
    case (Inl e)
    then have "\<not> link_readable st (doc_id m)" using linked_names_ok [of st "doc_id m"] by simp
    then show ?thesis using Inl by (simp add: normalize_device_def)
  next
    case (Inr names)
    then have l: "link_readable st (doc_id m)" using linked_names_ok [of st "doc_id m"] by simp
    show ?thesis
    proof (cases "extract_performance (get_or_empty (doc_fields m) ''AI Performance'')")
      case Inl2: (Inl e)
      then show ?thesis using Inr
        by (simp add: normalize_device_def Let_def ai del: extract_performance.simps)
    next
      case Inr2: (Inr pf)
      then show ?thesis using l Inr
        by (cases pf) (simp add: normalize_device_def Let_def ai del: extract_performance.simps
            split: flow.splits)
    qed
  qed
qed

lemma with_tags_device_ok:
  "(\<exists>d. with_tags_device st m = Inr d) \<longleftrightarrow>
     tag_readable (source_tag (doc_fields m)) \<and> link_readable st (doc_id m)"
proof (cases "normalize_tag (AList.update ''_id'' (VStr (doc_id m)) (to_dict m))")
  case (Inl e)
  then have "\<not> tag_readable (source_tag (doc_fields m))"
    using normalize_tag_ok [of "AList.update ''_id'' (VStr (doc_id m)) (to_dict m)"]
    by (simp add: source_tag_device)
  then show ?thesis using Inl by (simp add: with_tags_device_def)
next
  case (Inr d0)
  then have t: "tag_readable (source_tag (doc_fields m))"
    using normalize_tag_ok [of "AList.update ''_id'' (VStr (doc_id m)) (to_dict m)"]
    by (simp add: source_tag_device)
  show ?thesis
  proof (cases "linked_names st (doc_id m)")
    case Inl2: (Inl e)
    then have "\<not> link_readable st (doc_id m)" using linked_names_ok [of st "doc_id m"] by simp
    then show ?thesis using Inr Inl2 by (simp add: with_tags_device_def)
  next
    case Inr2: (Inr names)
    then have "link_readable st (doc_id m)" using linked_names_ok [of st "doc_id m"] by simp
    then show ?thesis using t Inr Inr2 by (simp add: with_tags_device_def Let_def)
  qed
qed

lemma response_of_for_each:
  "(\<exists>ds. (case for_each f xs of Inl e \<Rightarrow> Failed e | Inr ds \<Rightarrow> Ok ds) = Ok ds)
     \<longleftrightarrow> (\<forall>x\<in>set xs. \<exists>y. f x = Inr y)"
  using for_each_Inr_iff [of f xs] by (cases "for_each f xs") auto

lemma response_failed_iff:
  "(\<exists>e. (case r of Inl e \<Rightarrow> Failed e | Inr ds \<Rightarrow> Ok ds) = Failed e)
     \<longleftrightarrow> \<not> (\<exists>ds. (case r of Inl e \<Rightarrow> Failed e | Inr ds \<Rightarrow> Ok ds) = Ok ds)"
  by (cases r) auto

lemma get_devices_with_tags_ok:
  "(\<exists>ds. get_devices_with_tags st = Ok ds) \<longleftrightarrow>
     (\<forall>m\<in>set (device_specs_collection st).
        tag_readable (source_tag (doc_fields m)) \<and> link_readable st (doc_id m))"
  unfolding get_devices_with_tags_def response_of_for_each with_tags_device_ok ..

lemma get_mongodb_devices_ok:
  "(\<exists>ds. get_mongodb_devices seen st = Ok ds) \<longleftrightarrow>
     (\<forall>m\<in>set (device_specs_collection st).
        link_readable st (doc_id m)
        \<and> (\<exists>r. extract_performance (get_or_empty (doc_fields m) ''AI Performance'') = Inr r))"
proof -
  define P where "P = (\<lambda>m::mongo_doc. link_readable st (doc_id m)
        \<and> (\<exists>r. extract_performance (get_or_empty (doc_fields m) ''AI Performance'') = Inr r))"
  have "(\<forall>im\<in>set (enumerate 0 (device_specs_collection st)). P (snd im))
      \<longleftrightarrow> (\<forall>m\<in>snd ` set (enumerate 0 (device_specs_collection st)). P m)"
    by blast
  moreover have "snd ` set (enumerate 0 (device_specs_collection st)) = set (device_specs_collection st)"
    by (metis map_snd_enumerate set_map)
  ultimately have "(\<forall>im\<in>set (enumerate 0 (device_specs_collection st)). P (snd im))
      \<longleftrightarrow> (\<forall>m\<in>set (device_specs_collection st). P m)"
    by simp
  then show ?thesis
    unfolding get_mongodb_devices_def response_of_for_each normalize_device_ok P_def .
qed

subsection \<open>The linked applications\<close>

lemma unlinked_names:
  assumes "unlinked st h" shows "linked_names st h = Inr (VList [])"
proof (cases "List.find (filter_matches ''device_id'' (VStr h)) (device_apps_collection st)")
  case None
  then show ?thesis by (simp add: linked_names_def applications_of_def find_one_def)
next
  case (Some l)
  with assms have "map_of (doc_fields l) ''applications'' = None" by (simp add: unlinked_def)
  with Some show ?thesis
    by (simp add: linked_names_def applications_of_def find_one_def to_dict_def)
qed

lemma subscript_name_Inr:
  "subscript_name x = Inr y \<Longrightarrow> \<exists>e. x = VDict e \<and> map_of e ''name'' = Some y"
  by (cases x) (auto split: option.splits)

lemma linked_names_list:
  assumes "applications_of (find_one (device_apps_collection st) ''device_id'' (VStr h)) = Some (VList xs)"
    and "linked_names st h = Inr names"
  shows "\<exists>ns. names = VList ns \<and> length ns = length xs
           \<and> (\<forall>i<length xs. \<exists>e. xs ! i = VDict e \<and> map_of e ''name'' = Some (ns ! i))"
proof -
  from assms have "application_names (VList xs) = Inr names" by (simp add: linked_names_def)
  then obtain ns where f: "for_each subscript_name xs = Inr ns" and n: "names = VList ns"
    by (cases "for_each subscript_name xs") (auto simp: application_names_def)
  from for_each_nth [OF f] have l: "length ns = length xs"
    and s: "\<forall>i<length xs. subscript_name (xs ! i) = Inr (ns ! i)" by simp_all
  have "\<forall>i<length xs. \<exists>e. xs ! i = VDict e \<and> map_of e ''name'' = Some (ns ! i)"
  proof (intro allI impI)
    fix i assume "i < length xs"
    with s have "subscript_name (xs ! i) = Inr (ns ! i)" by simp
    then show "\<exists>e. xs ! i = VDict e \<and> map_of e ''name'' = Some (ns ! i)"
      by (rule subscript_name_Inr)
  qed
  with n l show ?thesis by (intro exI [of _ ns] conjI)
qed

subsection \<open>The views\<close>

lemma normalize_tag_other:
  assumes "normalize_tag d = Inr d'" "k \<noteq> ''tag''" "k \<noteq> ''Tag''"
  shows "map_of d' k = map_of d k"
proof (cases "map_of d ''tag''")
  case (Some v)
  show ?thesis
    using assms Some
    by (cases v) (auto simp: normalize_tag_def update_conv' split: if_splits)
next
  case None
  show ?thesis
  proof (cases "map_of d ''Tag''")
    case None2: None
    show ?thesis using assms None None2 by (auto simp: normalize_tag_def update_conv')
  next
    case (Some v)
    show ?thesis
      using assms None Some
      by (cases v) (auto simp: normalize_tag_def update_conv' delete_conv' split: if_splits)
  qed
qed

lemma with_tags_device_Inr:
  assumes "with_tags_device st m = Inr d"
  shows "\<exists>d0 names. normalize_tag (AList.update ''_id'' (VStr (doc_id m)) (to_dict m)) = Inr d0
      \<and> linked_names st (doc_id m) = Inr names
      \<and> d = (let device = AList.update ''applications'' names d0;
                  device =
                    (case map_of device ''deviceName'' of
                       Some n \<Rightarrow> AList.update ''formattedName'' n device
                     | None \<Rightarrow>
                        (let n = VStr (''Unknown Device ('' @ doc_id m @ '')'')
                         in AList.update ''formattedName'' n
                              (AList.update ''deviceName'' n device)))
              in if has_key ''description'' device then device
                 else AList.update ''description'' VNone device)"
proof (cases "normalize_tag (AList.update ''_id'' (VStr (doc_id m)) (to_dict m))")
  case (Inl e)
  with assms show ?thesis by (simp add: with_tags_device_def)
next
  case (Inr d0)
  show ?thesis
  proof (cases "linked_names st (doc_id m)")
    case Inl2: (Inl e)
    with assms Inr show ?thesis by (simp add: with_tags_device_def)
  next
    case Inr2: (Inr names)
    with assms Inr show ?thesis by (simp add: with_tags_device_def Let_def)
  qed
qed

lemma with_tags_device_view:
  assumes "with_tags_device st m = Inr d"
  shows "map_of d ''_id'' = Some (VStr (doc_id m))
     \<and> (\<exists>names. linked_names st (doc_id m) = Inr names \<and> map_of d ''applications'' = Some names)
     \<and> (map_of (doc_fields m) ''deviceName'' = None \<longrightarrow>
          map_of d ''deviceName'' = Some (VStr (''Unknown Device ('' @ doc_id m @ '')''))
          \<and> map_of d ''formattedName'' = Some (VStr (''Unknown Device ('' @ doc_id m @ '')'')))
     \<and> (\<forall>n. map_of (doc_fields m) ''deviceName'' = Some n \<longrightarrow>
          map_of d ''deviceName'' = Some n \<and> map_of d ''formattedName'' = Some n)
     \<and> (map_of (doc_fields m) ''description'' = None \<longrightarrow> map_of d ''description'' = Some VNone)
     \<and> (\<forall>v. map_of (doc_fields m) ''description'' = Some v \<longrightarrow> map_of d ''description'' = Some v)"
proof -
  from with_tags_device_Inr [OF assms] obtain d0 names where
    t: "normalize_tag (AList.update ''_id'' (VStr (doc_id m)) (to_dict m)) = Inr d0"
    and l: "linked_names st (doc_id m) = Inr names"
    and d: "d = (let device = AList.update ''applications'' names d0;
                  device =
                    (case map_of device ''deviceName'' of
                       Some n \<Rightarrow> AList.update ''formattedName'' n device
                     | None \<Rightarrow>
                        (let n = VStr (''Unknown Device ('' @ doc_id m @ '')'')
                         in AList.update ''formattedName'' n
                              (AList.update ''deviceName'' n device)))
              in if has_key ''description'' device then device
                 else AList.update ''description'' VNone device)"
    by (elim exE conjE)
  have i: "map_of d0 ''_id'' = Some (VStr (doc_id m))"
    using normalize_tag_other [OF t, of "''_id''"] by (simp add: update_conv')
  have n: "map_of d0 ''deviceName'' = map_of (doc_fields m) ''deviceName''"
    using normalize_tag_other [OF t, of "''deviceName''"] by (simp add: update_conv' to_dict_def)
  have s: "map_of d0 ''description'' = map_of (doc_fields m) ''description''"
    using normalize_tag_other [OF t, of "''description''"] by (simp add: update_conv' to_dict_def)
  have a: "map_of d ''_id'' = Some (VStr (doc_id m))"
    unfolding d using i by (simp add: Let_def update_conv' split: option.splits)
  have "map_of d ''applications'' = Some names"
    unfolding d by (simp add: Let_def update_conv' split: option.splits)
  with l have b: "\<exists>names. linked_names st (doc_id m) = Inr names \<and> map_of d ''applications'' = Some names"
    by (intro exI [of _ names] conjI)
  have c: "map_of (doc_fields m) ''deviceName'' = None \<longrightarrow>
          map_of d ''deviceName'' = Some (VStr (''Unknown Device ('' @ doc_id m @ '')''))
          \<and> map_of d ''formattedName'' = Some (VStr (''Unknown Device ('' @ doc_id m @ '')''))"
    unfolding d using n by (simp add: Let_def update_conv')
  have e: "\<forall>n. map_of (doc_fields m) ''deviceName'' = Some n \<longrightarrow>
          map_of d ''deviceName'' = Some n \<and> map_of d ''formattedName'' = Some n"
    unfolding d using n by (simp add: Let_def update_conv')
  have f: "map_of (doc_fields m) ''description'' = None \<longrightarrow> map_of d ''description'' = Some VNone"
    unfolding d using s by (simp add: Let_def update_conv' has_key_def split: option.splits)
  have g: "\<forall>v. map_of (doc_fields m) ''description'' = Some v \<longrightarrow> map_of d ''description'' = Some v"
    unfolding d using s by (simp add: Let_def update_conv' has_key_def split: option.splits)
  from a b c e f g show ?thesis by (intro conjI)
qed

lemma normalize_device_view:
  assumes "normalize_device st seen m = Inr d"
  shows "(\<exists>names. linked_names st (doc_id m) = Inr names \<and> map_of d ''applications'' = Some names)
     \<and> (map_of (doc_fields m) ''AI Performance'' = None \<longrightarrow>
          map_of d ''performance'' = Some (VInt 0)
          \<and> map_of d ''type'' = Some (VStr ''ai_edge'')
          \<and> map_of d ''lastSeen'' = Some (VStr seen)
          \<and> (map_of (doc_fields m) ''deviceName'' = None \<longrightarrow>
               map_of d ''model'' = Some (VStr []) \<and> map_of d ''name'' = Some (VStr []))
          \<and> (\<forall>n. map_of (doc_fields m) ''deviceName'' = Some n \<longrightarrow>
               map_of d ''model'' = Some n \<and> map_of d ''name'' = Some n))"
proof -
  have ai: "get_or_empty (AList.update ''formatted_status'' x (AList.update ''status'' y
              (AList.update ''applications'' z (project (to_dict m))))) ''AI Performance''
        = get_or_empty (doc_fields m) ''AI Performance''" for x y z
    by (simp add: get_or_empty_def update_conv' map_of_project projection_def to_dict_def)
  have dn: "map_of (project (to_dict m)) ''deviceName'' = map_of (doc_fields m) ''deviceName''"
    by (simp add: map_of_project projection_def to_dict_def)
  from assms obtain names where l: "linked_names st (doc_id m) = Inr names"
    by (cases "linked_names st (doc_id m)") (simp_all add: normalize_device_def)
  obtain pf where e: "extract_performance (get_or_empty (doc_fields m) ''AI Performance'') = Inr pf"
    using assms l
    by (cases "extract_performance (get_or_empty (doc_fields m) ''AI Performance'')")
      (simp_all add: normalize_device_def Let_def ai del: extract_performance.simps)
  obtain p f where pf: "pf = (p, f)" by (cases pf)
  have "map_of d ''applications'' = Some names"
    using assms l e pf
    by (cases f) (auto simp: normalize_device_def Let_def ai update_conv'
        simp del: extract_performance.simps)
  with l have a: "\<exists>names. linked_names st (doc_id m) = Inr names \<and> map_of d ''applications'' = Some names"
    by (intro exI [of _ names] conjI)
  have b: "map_of (doc_fields m) ''AI Performance'' = None \<longrightarrow>
          map_of d ''performance'' = Some (VInt 0)
          \<and> map_of d ''type'' = Some (VStr ''ai_edge'')
          \<and> map_of d ''lastSeen'' = Some (VStr seen)
          \<and> (map_of (doc_fields m) ''deviceName'' = None \<longrightarrow>
               map_of d ''model'' = Some (VStr []) \<and> map_of d ''name'' = Some (VStr []))
          \<and> (\<forall>n. map_of (doc_fields m) ''deviceName'' = Some n \<longrightarrow>
               map_of d ''model'' = Some n \<and> map_of d ''name'' = Some n)"
  proof
    assume "map_of (doc_fields m) ''AI Performance'' = None"
    then have "get_or_empty (doc_fields m) ''AI Performance'' = VStr []"
      by (simp add: get_or_empty_def)
    moreover have "extract_performance (VStr []) = Inr (0, Fallthrough)"
      by (rule rule_none) simp
    ultimately have z: "extract_performance (get_or_empty (doc_fields m) ''AI Performance'')
        = Inr (0, Fallthrough)" by (simp only:)
    have d: "d = (let device = AList.update ''formatted_status''
                      (VStr (formatted_status_of (map_of (AList.update ''applications'' names
                         (project (to_dict m))) ''Super Mode'')))
                    (AList.update ''status''
                      (VStr (status_of (map_of (AList.update ''applications'' names
                         (project (to_dict m))) ''Super Mode'')))
                    (AList.update ''applications'' names (project (to_dict m))));
                     device = AList.update ''performance'' (VInt 0) device;
                     device = AList.update ''type'' (VStr ''ai_edge'') device;
                     device = AList.update ''model'' (get_or_empty device ''deviceName'') device;
                     device = AList.update ''name'' (get_or_empty device ''deviceName'') device
                 in AList.update ''lastSeen'' (VStr seen) device)"
      using assms l z
      by (simp add: normalize_device_def Let_def ai del: extract_performance.simps)
    show "map_of d ''performance'' = Some (VInt 0)
          \<and> map_of d ''type'' = Some (VStr ''ai_edge'')
          \<and> map_of d ''lastSeen'' = Some (VStr seen)
          \<and> (map_of (doc_fields m) ''deviceName'' = None \<longrightarrow>
               map_of d ''model'' = Some (VStr []) \<and> map_of d ''name'' = Some (VStr []))
          \<and> (\<forall>n. map_of (doc_fields m) ''deviceName'' = Some n \<longrightarrow>
               map_of d ''model'' = Some n \<and> map_of d ''name'' = Some n)"
      unfolding d using dn by (simp add: Let_def update_conv' get_or_empty_def)
  qed
  from a b show ?thesis by (rule conjI)
qed

lemma view_applications:
  assumes "linked_names st h = Inr names" "map_of d ''applications'' = Some names"
  shows "(unlinked st h \<longrightarrow> map_of d ''applications'' = Some (VList []))
     \<and> (\<forall>xs. applications_of (find_one (device_apps_collection st) ''device_id'' (VStr h))
               = Some (VList xs) \<longrightarrow>
          (\<exists>ns. map_of d ''applications'' = Some (VList ns) \<and> length ns = length xs
             \<and> (\<forall>i<length xs. \<exists>e. xs ! i = VDict e \<and> map_of e ''name'' = Some (ns ! i))))"
proof (intro conjI impI allI)
  assume "unlinked st h"
  then have "linked_names st h = Inr (VList [])" by (rule unlinked_names)
  with assms show "map_of d ''applications'' = Some (VList [])" by simp
next
  fix xs
  assume "applications_of (find_one (device_apps_collection st) ''device_id'' (VStr h)) = Some (VList xs)"
  from linked_names_list [OF this assms(1)] obtain ns where n: "names = VList ns"
    and l: "length ns = length xs"
    and e: "\<forall>i<length xs. \<exists>e. xs ! i = VDict e \<and> map_of e ''name'' = Some (ns ! i)"
    by (elim exE conjE)
  from assms(2) n have "map_of d ''applications'' = Some (VList ns)" by simp
  with l e show "\<exists>ns. map_of d ''applications'' = Some (VList ns) \<and> length ns = length xs
             \<and> (\<forall>i<length xs. \<exists>e. xs ! i = VDict e \<and> map_of e ''name'' = Some (ns ! i))"
    by (intro exI [of _ ns] conjI)
qed

lemma with_tags_defaults:
  assumes "with_tags_device st m = Inr d"
  shows "map_of d ''_id'' = Some (VStr (doc_id m))
     \<and> (unlinked st (doc_id m) \<longrightarrow> map_of d ''applications'' = Some (VList []))
     \<and> (\<forall>xs. applications_of (find_one (device_apps_collection st) ''device_id'' (VStr (doc_id m)))
               = Some (VList xs) \<longrightarrow>
          (\<exists>ns. map_of d ''applications'' = Some (VList ns) \<and> length ns = length xs
             \<and> (\<forall>i<length xs. \<exists>e. xs ! i = VDict e \<and> map_of e ''name'' = Some (ns ! i))))
     \<and> (source_tag (doc_fields m) = None \<longrightarrow> map_of d ''tag'' = Some VNone)
     \<and> (map_of (doc_fields m) ''deviceName'' = None \<longrightarrow>
          map_of d ''deviceName'' = Some (VStr (''Unknown Device ('' @ doc_id m @ '')''))
          \<and> map_of d ''formattedName'' = Some (VStr (''Unknown Device ('' @ doc_id m @ '')'')))
     \<and> (\<forall>n. map_of (doc_fields m) ''deviceName'' = Some n \<longrightarrow>
          map_of d ''deviceName'' = Some n \<and> map_of d ''formattedName'' = Some n)
     \<and> (map_of (doc_fields m) ''description'' = None \<longrightarrow> map_of d ''description'' = Some VNone)
     \<and> (\<forall>v. map_of (doc_fields m) ''description'' = Some v \<longrightarrow> map_of d ''description'' = Some v)"
proof -
  from with_tags_device_view [OF assms] obtain names where
    i: "map_of d ''_id'' = Some (VStr (doc_id m))"
    and l: "linked_names st (doc_id m) = Inr names"
    and a: "map_of d ''applications'' = Some names"
    and n1: "map_of (doc_fields m) ''deviceName'' = None \<longrightarrow>
          map_of d ''deviceName'' = Some (VStr (''Unknown Device ('' @ doc_id m @ '')''))
          \<and> map_of d ''formattedName'' = Some (VStr (''Unknown Device ('' @ doc_id m @ '')''))"
    and n2: "\<forall>n. map_of (doc_fields m) ''deviceName'' = Some n \<longrightarrow>
          map_of d ''deviceName'' = Some n \<and> map_of d ''formattedName'' = Some n"
    and s1: "map_of (doc_fields m) ''description'' = None \<longrightarrow> map_of d ''description'' = Some VNone"
    and s2: "\<forall>v. map_of (doc_fields m) ''description'' = Some v \<longrightarrow> map_of d ''description'' = Some v"
    by (elim exE conjE)
  from view_applications [OF l a]
  have u: "unlinked st (doc_id m) \<longrightarrow> map_of d ''applications'' = Some (VList [])"
    by (elim conjE)
  from view_applications [OF l a]
  have x: "\<forall>xs. applications_of (find_one (device_apps_collection st) ''device_id'' (VStr (doc_id m)))
               = Some (VList xs) \<longrightarrow>
          (\<exists>ns. map_of d ''applications'' = Some (VList ns) \<and> length ns = length xs
             \<and> (\<forall>i<length xs. \<exists>e. xs ! i = VDict e \<and> map_of e ''name'' = Some (ns ! i)))"
    by (elim conjE)
  from with_tags_device_tag [OF assms] obtain d0 where
    n: "normalize_tag (AList.update ''_id'' (VStr (doc_id m)) (to_dict m)) = Inr d0"
    and t: "map_of d ''tag'' = map_of d0 ''tag''"
    by (elim exE conjE)
  from normalize_tag_result [OF n, unfolded source_tag_device device_tag_key]
  have "source_tag (doc_fields m) = None \<or> source_tag (doc_fields m) = Some VNone \<longrightarrow>
      map_of d0 ''tag'' = Some VNone"
    by (elim conjE)
  with t have g: "source_tag (doc_fields m) = None \<longrightarrow> map_of d ''tag'' = Some VNone" by simp
  from i u x g n1 n2 s1 s2 show ?thesis by (intro conjI)
qed

lemma device_list_defaults:
  assumes "normalize_device st seen m = Inr d"
  shows "(unlinked st (doc_id m) \<longrightarrow> map_of d ''applications'' = Some (VList []))
     \<and> (\<forall>xs. applications_of (find_one (device_apps_collection st) ''device_id'' (VStr (doc_id m)))
               = Some (VList xs) \<longrightarrow>
          (\<exists>ns. map_of d ''applications'' = Some (VList ns) \<and> length ns = length xs
             \<and> (\<forall>i<length xs. \<exists>e. xs ! i = VDict e \<and> map_of e ''name'' = Some (ns ! i))))
     \<and> (map_of (doc_fields m) ''Super Mode'' = None \<longrightarrow>
          map_of d ''status'' = Some (VStr ''disabled'')
          \<and> map_of d ''formatted_status'' = Some (VStr ''Super Mode: Disabled''))
     \<and> (map_of (doc_fields m) ''AI Performance'' = None \<longrightarrow>
          map_of d ''performance'' = Some (VInt 0)
          \<and> map_of d ''type'' = Some (VStr ''ai_edge'')
          \<and> map_of d ''lastSeen'' = Some (VStr seen)
          \<and> (map_of (doc_fields m) ''deviceName'' = None \<longrightarrow>
               map_of d ''model'' = Some (VStr []) \<and> map_of d ''name'' = Some (VStr []))
          \<and> (\<forall>n. map_of (doc_fields m) ''deviceName'' = Some n \<longrightarrow>
               map_of d ''model'' = Some n \<and> map_of d ''name'' = Some n))"
proof -
  from normalize_device_view [OF assms] obtain names where
    l: "linked_names st (doc_id m) = Inr names"
    and a: "map_of d ''applications'' = Some names"
    and p: "map_of (doc_fields m) ''AI Performance'' = None \<longrightarrow>
          map_of d ''performance'' = Some (VInt 0)
          \<and> map_of d ''type'' = Some (VStr ''ai_edge'')
          \<and> map_of d ''lastSeen'' = Some (VStr seen)
          \<and> (map_of (doc_fields m) ''deviceName'' = None \<longrightarrow>
               map_of d ''model'' = Some (VStr []) \<and> map_of d ''name'' = Some (VStr []))
          \<and> (\<forall>n. map_of (doc_fields m) ''deviceName'' = Some n \<longrightarrow>
               map_of d ''model'' = Some n \<and> map_of d ''name'' = Some n)"
    by (elim exE conjE)
  from view_applications [OF l a]
  have u: "unlinked st (doc_id m) \<longrightarrow> map_of d ''applications'' = Some (VList [])"
    by (elim conjE)
  from view_applications [OF l a]
  have x: "\<forall>xs. applications_of (find_one (device_apps_collection st) ''device_id'' (VStr (doc_id m)))
               = Some (VList xs) \<longrightarrow>
          (\<exists>ns. map_of d ''applications'' = Some (VList ns) \<and> length ns = length xs
             \<and> (\<forall>i<length xs. \<exists>e. xs ! i = VDict e \<and> map_of e ''name'' = Some (ns ! i)))"
    by (elim conjE)
  from normalize_device_status [OF assms]
  have s: "map_of (doc_fields m) ''Super Mode'' = None \<longrightarrow>
          map_of d ''status'' = Some (VStr ''disabled'')
          \<and> map_of d ''formatted_status'' = Some (VStr ''Super Mode: Disabled'')"
    by (simp add: status_of_def formatted_status_of_def)
  from u x s p show ?thesis by (intro conjI)
qed

text \<open>
  Claim C8, as amended. A list route answers with the list or with the error response of
  its handler, nothing else. The tagged list is answered exactly when every tag is missing,
  null or a string and every linked \<^verbatim>\<open>applications\<close> value is a list of mappings that
  each have a name; the device list exactly when the same holds of the applications and the
  extraction of every performance succeeds, as it does for every value that is neither an
  infinite number nor a text with a run of more than 4300 digits. In every view of an
  answered list a missing field has its default: the applications are the empty list when no
  link document matches or the first that matches has no \<^verbatim>\<open>applications\<close> field, and
  the names of the linked entries otherwise; in the tagged list the tag and the description
  are null and the two names read \<^verbatim>\<open>Unknown Device\<close> with the identifier; in the device
  list the status is \<^verbatim>\<open>disabled\<close>, and without a performance field the performance is 0
  and the model and the name are the device name or the empty string.
\<close>

theorem malformed_fields_reach_the_error_handler:
  "((\<exists>ds. get_devices_with_tags st = Ok ds) \<longleftrightarrow>
      (\<forall>m\<in>set (device_specs_collection st).
         tag_readable (source_tag (doc_fields m)) \<and> link_readable st (doc_id m)))
   \<and> ((\<exists>e. get_devices_with_tags st = Failed e) \<longleftrightarrow> \<not> (\<exists>ds. get_devices_with_tags st = Ok ds))
   \<and> ((\<exists>ds. get_mongodb_devices seen st = Ok ds) \<longleftrightarrow>
      (\<forall>m\<in>set (device_specs_collection st).
         link_readable st (doc_id m)
         \<and> (\<exists>r. extract_performance (get_or_empty (doc_fields m) ''AI Performance'') = Inr r)))
   \<and> ((\<exists>e. get_mongodb_devices seen st = Failed e) \<longleftrightarrow> \<not> (\<exists>ds. get_mongodb_devices seen st = Ok ds))
   \<and> (convertible v \<longrightarrow> (\<exists>r. extract_performance v = Inr r))
   \<and> (with_tags_device st m = Inr d \<longrightarrow>
        map_of d ''_id'' = Some (VStr (doc_id m))
        \<and> (unlinked st (doc_id m) \<longrightarrow> map_of d ''applications'' = Some (VList []))
        \<and> (\<forall>xs. applications_of (find_one (device_apps_collection st) ''device_id'' (VStr (doc_id m)))
                  = Some (VList xs) \<longrightarrow>
             (\<exists>ns. map_of d ''applications'' = Some (VList ns) \<and> length ns = length xs
                \<and> (\<forall>i<length xs. \<exists>e. xs ! i = VDict e \<and> map_of e ''name'' = Some (ns ! i))))
        \<and> (source_tag (doc_fields m) = None \<longrightarrow> map_of d ''tag'' = Some VNone)
        \<and> (map_of (doc_fields m) ''deviceName'' = None \<longrightarrow>
             map_of d ''deviceName'' = Some (VStr (''Unknown Device ('' @ doc_id m @ '')''))
             \<and> map_of d ''formattedName'' = Some (VStr (''Unknown Device ('' @ doc_id m @ '')'')))
        \<and> (\<forall>n. map_of (doc_fields m) ''deviceName'' = Some n \<longrightarrow>
             map_of d ''deviceName'' = Some n \<and> map_of d ''formattedName'' = Some n)
        \<and> (map_of (doc_fields m) ''description'' = None \<longrightarrow> map_of d ''description'' = Some VNone)
        \<and> (\<forall>v. map_of (doc_fields m) ''description'' = Some v \<longrightarrow> map_of d ''description'' = Some v))
   \<and> (normalize_device st t m2 = Inr d2 \<longrightarrow>
        (unlinked st (doc_id m2) \<longrightarrow> map_of d2 ''applications'' = Some (VList []))
        \<and> (\<forall>xs. applications_of (find_one (device_apps_collection st) ''device_id'' (VStr (doc_id m2)))
                  = Some (VList xs) \<longrightarrow>
             (\<exists>ns. map_of d2 ''applications'' = Some (VList ns) \<and> length ns = length xs
                \<and> (\<forall>i<length xs. \<exists>e. xs ! i = VDict e \<and> map_of e ''name'' = Some (ns ! i))))
        \<and> (map_of (doc_fields m2) ''Super Mode'' = None \<longrightarrow>
             map_of d2 ''status'' = Some (VStr ''disabled'')
             \<and> map_of d2 ''formatted_status'' = Some (VStr ''Super Mode: Disabled''))
        \<and> (map_of (doc_fields m2) ''AI Performance'' = None \<longrightarrow>
             map_of d2 ''performance'' = Some (VInt 0)
             \<and> map_of d2 ''type'' = Some (VStr ''ai_edge'')
             \<and> map_of d2 ''lastSeen'' = Some (VStr t)
             \<and> (map_of (doc_fields m2) ''deviceName'' = None \<longrightarrow>
                  map_of d2 ''model'' = Some (VStr []) \<and> map_of d2 ''name'' = Some (VStr []))
             \<and> (\<forall>n. map_of (doc_fields m2) ''deviceName'' = Some n \<longrightarrow>
                  map_of d2 ''model'' = Some n \<and> map_of d2 ''name'' = Some n)))"
proof -
  have f1: "(\<exists>e. get_devices_with_tags st = Failed e) \<longleftrightarrow> \<not> (\<exists>ds. get_devices_with_tags st = Ok ds)"
    unfolding get_devices_with_tags_def by (rule response_failed_iff)
  have f2: "(\<exists>e. get_mongodb_devices seen st = Failed e) \<longleftrightarrow> \<not> (\<exists>ds. get_mongodb_devices seen st = Ok ds)"
    unfolding get_mongodb_devices_def by (rule response_failed_iff)
  have c: "convertible v \<longrightarrow> (\<exists>r. extract_performance v = Inr r)"
    by (intro impI) (rule convertible_ok)
  show ?thesis
    apply (intro conjI)
          apply (rule get_devices_with_tags_ok)
         apply (rule f1)
        apply (rule get_mongodb_devices_ok)
       apply (rule f2)
      apply (rule c)
     apply (rule impI, erule with_tags_defaults)
    apply (rule impI, erule device_list_defaults)
    done
qed

theorem malformed_fields_reach_the_error_handler_witness:
  "device_specs_collection two_store = [legacy_spec, ncox_spec]
   \<and> tag_readable (source_tag (doc_fields legacy_spec))
   \<and> link_readable two_store (doc_id legacy_spec)
   \<and> tag_readable (source_tag (doc_fields ncox_spec))
   \<and> link_readable two_store (doc_id ncox_spec)
   \<and> (\<exists>ds. get_devices_with_tags two_store = Ok ds)
   \<and> (\<exists>r. extract_performance (get_or_empty (doc_fields legacy_spec) ''AI Performance'') = Inr r)
   \<and> (\<exists>r. extract_performance (get_or_empty (doc_fields ncox_spec) ''AI Performance'') = Inr r)
   \<and> (\<exists>ds. get_mongodb_devices fixed_clock two_store = Ok ds)
   \<and> with_tags_device two_store legacy_spec = Inr legacy_tagged_view
   \<and> unlinked two_store (doc_id legacy_spec)
   \<and> source_tag (doc_fields legacy_spec) = None
   \<and> map_of (doc_fields legacy_spec) ''description'' = None
   \<and> map_of legacy_tagged_view ''applications'' = Some (VList [])
   \<and> map_of legacy_tagged_view ''tag'' = Some VNone
   \<and> map_of legacy_tagged_view ''description'' = Some VNone
   \<and> device_specs_collection nameless_store = [ncox_spec]
   \<and> \<not> link_readable nameless_store (doc_id ncox_spec)
   \<and> (\<exists>e. get_mongodb_devices fixed_clock nameless_store = Failed e)"
proof -
  note t = malformed_fields_reach_the_error_handler [of two_store fixed_clock
      "get_or_empty (doc_fields legacy_spec) ''AI Performance''" legacy_spec legacy_tagged_view
      "''now''" ncox_spec ncox_view]
  note t' = malformed_fields_reach_the_error_handler [of two_store fixed_clock
      "get_or_empty (doc_fields ncox_spec) ''AI Performance''" legacy_spec legacy_tagged_view
      "''now''" ncox_spec ncox_view]
  note u = malformed_fields_reach_the_error_handler [of nameless_store fixed_clock
      "VNone" legacy_spec legacy_tagged_view "''now''" ncox_spec ncox_view]
  have s1: "device_specs_collection two_store = [legacy_spec, ncox_spec]"
    by (simp add: two_store_def)
  have s2: "device_specs_collection nameless_store = [ncox_spec]"
    by (simp add: nameless_store_def)
  have a: "tag_readable (source_tag (doc_fields legacy_spec))
   \<and> link_readable two_store (doc_id legacy_spec)
   \<and> tag_readable (source_tag (doc_fields ncox_spec))
   \<and> link_readable two_store (doc_id ncox_spec)"
    by code_simp
  have b: "\<not> link_readable nameless_store (doc_id ncox_spec)"
    by code_simp
  from a s1 have h1: "\<forall>m\<in>set (device_specs_collection two_store).
      tag_readable (source_tag (doc_fields m)) \<and> link_readable two_store (doc_id m)"
    by simp
  from t have "(\<exists>ds. get_devices_with_tags two_store = Ok ds) \<longleftrightarrow>
      (\<forall>m\<in>set (device_specs_collection two_store).
         tag_readable (source_tag (doc_fields m)) \<and> link_readable two_store (doc_id m))"
    by (elim conjE)
  with h1 have c1: "\<exists>ds. get_devices_with_tags two_store = Ok ds" by simp
  have short: "convertible (VStr s)"
    if "\<forall>r\<in>set (findall_digits s). length r \<le> max_str_digits" for s
    using that by (simp add: findall_digits_is_run)
  have "get_or_empty (doc_fields legacy_spec) ''AI Performance'' = VStr []" by code_simp
  moreover have "convertible (VStr [])" by (rule short) simp
  ultimately have k1: "convertible (get_or_empty (doc_fields legacy_spec) ''AI Performance'')"
    by (simp only:)
  have "get_or_empty (doc_fields ncox_spec) ''AI Performance'' = VStr ''Up to 16 TOPS''" by code_simp
  moreover have "convertible (VStr ''Up to 16 TOPS'')" by (rule short) code_simp
  ultimately have k2: "convertible (get_or_empty (doc_fields ncox_spec) ''AI Performance'')"
    by (simp only:)
  from t have "convertible (get_or_empty (doc_fields legacy_spec) ''AI Performance'') \<longrightarrow>
      (\<exists>r. extract_performance (get_or_empty (doc_fields legacy_spec) ''AI Performance'') = Inr r)"
    by (elim conjE)
  from this k1
  have e1: "\<exists>r. extract_performance (get_or_empty (doc_fields legacy_spec) ''AI Performance'') = Inr r"
    by (rule mp)
  from t' have "convertible (get_or_empty (doc_fields ncox_spec) ''AI Performance'') \<longrightarrow>
      (\<exists>r. extract_performance (get_or_empty (doc_fields ncox_spec) ''AI Performance'') = Inr r)"
    by (elim conjE)
  from this k2
  have e2: "\<exists>r. extract_performance (get_or_empty (doc_fields ncox_spec) ''AI Performance'') = Inr r"
    by (rule mp)
  from a e1 e2 s1 have h2: "\<forall>m\<in>set (device_specs_collection two_store).
         link_readable two_store (doc_id m)
         \<and> (\<exists>r. extract_performance (get_or_empty (doc_fields m) ''AI Performance'') = Inr r)"
    by (simp del: extract_performance.simps)
  from t have "(\<exists>ds. get_mongodb_devices fixed_clock two_store = Ok ds) \<longleftrightarrow>
      (\<forall>m\<in>set (device_specs_collection two_store).
         link_readable two_store (doc_id m)
         \<and> (\<exists>r. extract_performance (get_or_empty (doc_fields m) ''AI Performance'') = Inr r))"
    by (elim conjE)
  with h2 have c2: "\<exists>ds. get_mongodb_devices fixed_clock two_store = Ok ds" by (simp only:)
  have w: "with_tags_device two_store legacy_spec = Inr legacy_tagged_view" by code_simp
  have v: "unlinked two_store (doc_id legacy_spec) \<and> source_tag (doc_fields legacy_spec) = None
      \<and> map_of (doc_fields legacy_spec) ''description'' = None"
    by code_simp
  from t have "with_tags_device two_store legacy_spec = Inr legacy_tagged_view \<longrightarrow>
        map_of legacy_tagged_view ''_id'' = Some (VStr (doc_id legacy_spec))
        \<and> (unlinked two_store (doc_id legacy_spec) \<longrightarrow>
             map_of legacy_tagged_view ''applications'' = Some (VList []))
        \<and> (\<forall>xs. applications_of (find_one (device_apps_collection two_store) ''device_id''
                    (VStr (doc_id legacy_spec))) = Some (VList xs) \<longrightarrow>
             (\<exists>ns. map_of legacy_tagged_view ''applications'' = Some (VList ns) \<and> length ns = length xs
                \<and> (\<forall>i<length xs. \<exists>e. xs ! i = VDict e \<and> map_of e ''name'' = Some (ns ! i))))
        \<and> (source_tag (doc_fields legacy_spec) = None \<longrightarrow> map_of legacy_tagged_view ''tag'' = Some VNone)
        \<and> (map_of (doc_fields legacy_spec) ''deviceName'' = None \<longrightarrow>
             map_of legacy_tagged_view ''deviceName''
               = Some (VStr (''Unknown Device ('' @ doc_id legacy_spec @ '')''))
             \<and> map_of legacy_tagged_view ''formattedName''
               = Some (VStr (''Unknown Device ('' @ doc_id legacy_spec @ '')'')))
        \<and> (\<forall>n. map_of (doc_fields legacy_spec) ''deviceName'' = Some n \<longrightarrow>
             map_of legacy_tagged_view ''deviceName'' = Some n
             \<and> map_of legacy_tagged_view ''formattedName'' = Some n)
        \<and> (map_of (doc_fields legacy_spec) ''description'' = None \<longrightarrow>
             map_of legacy_tagged_view ''description'' = Some VNone)
        \<and> (\<forall>v. map_of (doc_fields legacy_spec) ''description'' = Some v \<longrightarrow>
             map_of legacy_tagged_view ''description'' = Some v)"
    by (elim conjE)
  from this w have "map_of legacy_tagged_view ''_id'' = Some (VStr (doc_id legacy_spec))
        \<and> (unlinked two_store (doc_id legacy_spec) \<longrightarrow>
             map_of legacy_tagged_view ''applications'' = Some (VList []))
        \<and> (\<forall>xs. applications_of (find_one (device_apps_collection two_store) ''device_id''
                    (VStr (doc_id legacy_spec))) = Some (VList xs) \<longrightarrow>
             (\<exists>ns. map_of legacy_tagged_view ''applications'' = Some (VList ns) \<and> length ns = length xs
                \<and> (\<forall>i<length xs. \<exists>e. xs ! i = VDict e \<and> map_of e ''name'' = Some (ns ! i))))
        \<and> (source_tag (doc_fields legacy_spec) = None \<longrightarrow> map_of legacy_tagged_view ''tag'' = Some VNone)
        \<and> (map_of (doc_fields legacy_spec) ''deviceName'' = None \<longrightarrow>
             map_of legacy_tagged_view ''deviceName''
               = Some (VStr (''Unknown Device ('' @ doc_id legacy_spec @ '')''))
             \<and> map_of legacy_tagged_view ''formattedName''
               = Some (VStr (''Unknown Device ('' @ doc_id legacy_spec @ '')'')))
        \<and> (\<forall>n. map_of (doc_fields legacy_spec) ''deviceName'' = Some n \<longrightarrow>
             map_of legacy_tagged_view ''deviceName'' = Some n
             \<and> map_of legacy_tagged_view ''formattedName'' = Some n)
        \<and> (map_of (doc_fields legacy_spec) ''description'' = None \<longrightarrow>
             map_of legacy_tagged_view ''description'' = Some VNone)
        \<and> (\<forall>v. map_of (doc_fields legacy_spec) ''description'' = Some v \<longrightarrow>
             map_of legacy_tagged_view ''description'' = Some v)"
    by (rule mp)
  note dd = this
  from dd have d1: "unlinked two_store (doc_id legacy_spec) \<longrightarrow>
             map_of legacy_tagged_view ''applications'' = Some (VList [])"
    by (elim conjE)
  from dd have d2: "source_tag (doc_fields legacy_spec) = None \<longrightarrow> map_of legacy_tagged_view ''tag'' = Some VNone"
    by (elim conjE)
  from dd have d3: "map_of (doc_fields legacy_spec) ''description'' = None \<longrightarrow>
             map_of legacy_tagged_view ''description'' = Some VNone"
    by (elim conjE)
  from v have v1: "unlinked two_store (doc_id legacy_spec)" by (elim conjE)
  from v have v2: "source_tag (doc_fields legacy_spec) = None" by (elim conjE)
  from v have v3: "map_of (doc_fields legacy_spec) ''description'' = None" by (elim conjE)
  from d1 v1 have g1: "map_of legacy_tagged_view ''applications'' = Some (VList [])" by (rule mp)
  from d2 v2 have g2: "map_of legacy_tagged_view ''tag'' = Some VNone" by (rule mp)
  from d3 v3 have g3: "map_of legacy_tagged_view ''description'' = Some VNone" by (rule mp)
  from b s2 have h3: "\<not> (\<forall>m\<in>set (device_specs_collection nameless_store).
         link_readable nameless_store (doc_id m)
         \<and> (\<exists>r. extract_performance (get_or_empty (doc_fields m) ''AI Performance'') = Inr r))"
    by (simp del: extract_performance.simps)
  from u have "(\<exists>ds. get_mongodb_devices fixed_clock nameless_store = Ok ds) \<longleftrightarrow>
      (\<forall>m\<in>set (device_specs_collection nameless_store).
         link_readable nameless_store (doc_id m)
         \<and> (\<exists>r. extract_performance (get_or_empty (doc_fields m) ''AI Performance'') = Inr r))"
    by (elim conjE)
  with h3 have n3: "\<not> (\<exists>ds. get_mongodb_devices fixed_clock nameless_store = Ok ds)"
    by (simp del: extract_performance.simps)
  from u have "(\<exists>e. get_mongodb_devices fixed_clock nameless_store = Failed e)
      \<longleftrightarrow> \<not> (\<exists>ds. get_mongodb_devices fixed_clock nameless_store = Ok ds)"
    by (elim conjE)
  with n3 have c3: "\<exists>e. get_mongodb_devices fixed_clock nameless_store = Failed e" by simp
  from a have a1: "tag_readable (source_tag (doc_fields legacy_spec))" by (elim conjE)
  from a have a2: "link_readable two_store (doc_id legacy_spec)" by (elim conjE)
  from a have a3: "tag_readable (source_tag (doc_fields ncox_spec))" by (elim conjE)
  from a have a4: "link_readable two_store (doc_id ncox_spec)" by (elim conjE)
  from s1 a1 a2 a3 a4 c1 e1 e2 c2 w v1 v2 v3 g1 g2 g3 s2 b c3 show ?thesis
    by (intro conjI)
qed

text \<open>The claim as written fails: an application entry without a name and a number as
  tag both end in the error response.\<close>

theorem malformed_field_counterexample:
  "get_mongodb_devices fixed_clock nameless_store = Failed KeyError
   \<and> get_devices_with_tags nameless_store = Failed KeyError
   \<and> get_devices_with_tags numeric_tag_store = Failed AttributeError"
  by code_simp

end
